theory Spec2Isabelle
  imports Main "HOL-Library.Multiset" "HOL-Library.Sublist"
begin

section \<open>Sliding-puzzle solver: state representation\<close>

text \<open>
  A board is a Python list of lists of integers.  Python integers are unbounded, so cells,
  depths and costs are \<open>int\<close>.  Exceptions raised by the source are values of \<open>error\<close>:
  unpacking \<open>None\<close> raises \<open>TypeError\<close>, an out-of-range subscript raises \<open>IndexError\<close>, a
  missing dictionary key raises \<open>KeyError\<close>.
\<close>

type_synonym board = "int list list"

datatype error = TypeError | IndexError | KeyError

text \<open>
  Class \<open>PuzzleState\<close>.  The attribute \<open>size\<close> is assigned once, in the constructor, to
  \<open>len(board)\<close>, and the board attribute is never assigned again, so \<open>size\<close> is the
  function \<open>size_of\<close> of the board.
\<close>

datatype puzzle_state =
  PuzzleState (board: board) (parent: "puzzle_state option") (move: "string option")
    (depth: int) (cost: int)

definition PuzzleState_init ::
  "board \<Rightarrow> puzzle_state option \<Rightarrow> string option \<Rightarrow> int \<Rightarrow> int \<Rightarrow> puzzle_state" where
  "PuzzleState_init b par mv d c = PuzzleState (map (\<lambda>row. row) b) par mv d c"

definition size_of :: "puzzle_state \<Rightarrow> nat" where
  "size_of s = length (board s)"

text \<open>\<open>__eq__\<close> and \<open>__hash__\<close> look at the board only.\<close>

definition state_eq :: "puzzle_state \<Rightarrow> puzzle_state \<Rightarrow> bool" where
  "state_eq s t = (board s = board t)"

text \<open>\<open>__lt__\<close> compares the costs.\<close>

definition state_lt :: "puzzle_state \<Rightarrow> puzzle_state \<Rightarrow> bool" where
  "state_lt s t = (cost s < cost t)"

subsection \<open>find_empty\<close>

text \<open>
  The two nested loops over \<open>range(size)\<close>.  Reading \<open>board[i][j]\<close> beyond the end of a row
  raises \<open>IndexError\<close>; the result \<open>None\<close> is returned when no cell holds 0.
\<close>

fun find_empty_cols :: "int list \<Rightarrow> nat list \<Rightarrow> error + nat option" where
  "find_empty_cols row [] = Inr None"
| "find_empty_cols row (j # js) =
     (if j < length row
      then (if row ! j = 0 then Inr (Some j) else find_empty_cols row js)
      else Inl IndexError)"

fun find_empty_rows :: "board \<Rightarrow> nat \<Rightarrow> nat list \<Rightarrow> error + (nat \<times> nat) option" where
  "find_empty_rows b n [] = Inr None"
| "find_empty_rows b n (i # is) =
     (if i < length b
      then (case find_empty_cols (b ! i) [0..<n] of
              Inl e \<Rightarrow> Inl e
            | Inr (Some j) \<Rightarrow> Inr (Some (i, j))
            | Inr None \<Rightarrow> find_empty_rows b n is)
      else Inl IndexError)"

definition find_empty :: "puzzle_state \<Rightarrow> error + (nat \<times> nat) option" where
  "find_empty s = find_empty_rows (board s) (size_of s) [0..<size_of s]"

subsection \<open>Goal test\<close>

definition goal2 :: board where
  "goal2 = [[1, 2], [3, 0]]"

definition goal3 :: board where
  "goal3 = [[1, 2, 3], [4, 5, 6], [7, 8, 0]]"

definition get_goal_state :: "puzzle_state \<Rightarrow> board" where
  "get_goal_state s = (if size_of s = 2 then goal2 else goal3)"

definition is_goal :: "puzzle_state \<Rightarrow> bool" where
  "is_goal s = (board s = (if size_of s = 2 then goal2 else goal3))"

subsection \<open>Successor function\<close>

definition moves :: "(int \<times> int \<times> string) list" where
  "moves = [(-1, 0, ''UP''), (1, 0, ''DOWN''), (0, -1, ''LEFT''), (0, 1, ''RIGHT'')]"

text \<open>
  The tuple assignment that swaps two cells of the copied board: both right-hand sides are
  read first (the read of the target cell can raise \<open>IndexError\<close> on a short row), then the
  two cells are written one after the other.
\<close>

definition swap_cells :: "board \<Rightarrow> nat \<Rightarrow> nat \<Rightarrow> nat \<Rightarrow> nat \<Rightarrow> error + board" where
  "swap_cells b r c r' c' =
     (if r' < length b \<and> c' < length (b ! r') \<and> r < length b \<and> c < length (b ! r)
      then (let v1 = b ! r' ! c'; v2 = b ! r ! c;
                b1 = b[r := (b ! r)[c := v1]];
                b2 = b1[r' := (b1 ! r')[c' := v2]]
            in Inr b2)
      else Inl IndexError)"

fun successors_loop ::
  "puzzle_state \<Rightarrow> nat \<Rightarrow> nat \<Rightarrow> (int \<times> int \<times> string) list \<Rightarrow> error + puzzle_state list" where
  "successors_loop s row col [] = Inr []"
| "successors_loop s row col ((dr, dc, move_name) # ms) =
     (let new_row = int row + dr; new_col = int col + dc in
      if 0 \<le> new_row \<and> new_row < int (size_of s) \<and> 0 \<le> new_col \<and> new_col < int (size_of s)
      then (case swap_cells (board s) row col (nat new_row) (nat new_col) of
              Inl e \<Rightarrow> Inl e
            | Inr new_board \<Rightarrow>
                (case successors_loop s row col ms of
                   Inl e \<Rightarrow> Inl e
                 | Inr rest \<Rightarrow>
                     Inr (PuzzleState_init new_board (Some s) (Some move_name)
                            (depth s + 1) (cost s + 1) # rest)))
      else successors_loop s row col ms)"

definition get_successors :: "puzzle_state \<Rightarrow> error + puzzle_state list" where
  "get_successors s =
     (case find_empty s of
        Inl e \<Rightarrow> Inl e
      | Inr None \<Rightarrow> Inl TypeError
      | Inr (Some (row, col)) \<Rightarrow> successors_loop s row col moves)"

subsection \<open>Manhattan distance\<close>

definition goal_positions2 :: "(int \<times> (int \<times> int)) list" where
  "goal_positions2 = [(1, (0, 0)), (2, (0, 1)), (3, (1, 0)), (0, (1, 1))]"

definition goal_positions3 :: "(int \<times> (int \<times> int)) list" where
  "goal_positions3 =
     [(1, (0, 0)), (2, (0, 1)), (3, (0, 2)),
      (4, (1, 0)), (5, (1, 1)), (6, (1, 2)),
      (7, (2, 0)), (8, (2, 1)), (0, (2, 2))]"

definition goal_positions :: "puzzle_state \<Rightarrow> (int \<times> (int \<times> int)) list" where
  "goal_positions s = (if size_of s = 2 then goal_positions2 else goal_positions3)"

fun manhattan_cols ::
  "(int \<times> (int \<times> int)) list \<Rightarrow> int list \<Rightarrow> nat \<Rightarrow> nat list \<Rightarrow> int \<Rightarrow> error + int" where
  "manhattan_cols tbl row i [] distance = Inr distance"
| "manhattan_cols tbl row i (j # js) distance =
     (if j < length row
      then (let tile = row ! j in
            if tile \<noteq> 0
            then (case map_of tbl tile of
                    None \<Rightarrow> Inl KeyError
                  | Some (goal_row, goal_col) \<Rightarrow>
                      manhattan_cols tbl row i js
                        (distance + (\<bar>int i - goal_row\<bar> + \<bar>int j - goal_col\<bar>)))
            else manhattan_cols tbl row i js distance)
      else Inl IndexError)"

fun manhattan_rows ::
  "(int \<times> (int \<times> int)) list \<Rightarrow> board \<Rightarrow> nat \<Rightarrow> nat list \<Rightarrow> int \<Rightarrow> error + int" where
  "manhattan_rows tbl b n [] distance = Inr distance"
| "manhattan_rows tbl b n (i # is) distance =
     (if i < length b
      then (case manhattan_cols tbl (b ! i) i [0..<n] distance of
              Inl e \<Rightarrow> Inl e
            | Inr distance' \<Rightarrow> manhattan_rows tbl b n is distance')
      else Inl IndexError)"

definition manhattan_distance :: "puzzle_state \<Rightarrow> error + int" where
  "manhattan_distance s =
     manhattan_rows (goal_positions s) (board s) (size_of s) [0..<size_of s] 0"

definition to_list :: "puzzle_state \<Rightarrow> board" where
  "to_list s = board s"

section \<open>Boards reachable by slides\<close>

text \<open>
  Two boards have the same cells when their rows have the same lengths and they hold the same
  values with the same multiplicities.  A slide keeps both, and only finitely many boards
  have the same cells as a given one: this bounds every search below.
\<close>

definition same_cells :: "board \<Rightarrow> board \<Rightarrow> bool" where
  "same_cells a b = (map length a = map length b \<and> mset (concat a) = mset (concat b))"

definition rearrangements :: "board \<Rightarrow> board set" where
  "rearrangements b = {a. same_cells a b}"

lemma finite_rearrangements: "finite (rearrangements b)"
proof -
  have "rearrangements b \<subseteq> {a. set a \<subseteq> {row. set row \<subseteq> set (concat b) \<and> length row \<le> length (concat b)} \<and> length a = length b}"
  proof
    fix a assume "a \<in> rearrangements b"
    then have l: "map length a = map length b" and m: "mset (concat a) = mset (concat b)"
      by (auto simp: rearrangements_def same_cells_def)
    from m have s: "set (concat a) = set (concat b)" by (metis set_mset_mset)
    from m have len: "length (concat a) = length (concat b)" by (metis size_mset)
    have "length a = length b" using l by (metis length_map)
    moreover have "\<And>row. row \<in> set a \<Longrightarrow> set row \<subseteq> set (concat b)"
      using s by auto
    moreover have "\<And>row. row \<in> set a \<Longrightarrow> length row \<le> length (concat b)"
    proof -
      fix row assume "row \<in> set a"
      then have "length row \<le> length (concat a)"
        by (induction a) auto
      then show "length row \<le> length (concat b)" using len by simp
    qed
    ultimately show "a \<in> {a. set a \<subseteq> {row. set row \<subseteq> set (concat b) \<and> length row \<le> length (concat b)} \<and> length a = length b}"
      by auto
  qed
  moreover have "finite {row. set row \<subseteq> set (concat b) \<and> length row \<le> length (concat b)}"
    by (rule finite_lists_length_le) simp
  ultimately show ?thesis
    using finite_lists_length_eq[of "{row. set row \<subseteq> set (concat b) \<and> length row \<le> length (concat b)}" "length b"] by (meson finite_subset)
qed

lemma mset_concat_update:
  "r < length b \<Longrightarrow> mset (concat (b[r := row])) + mset (b ! r) = mset (concat b) + mset row"
proof (induction b arbitrary: r)
  case Nil then show ?case by simp
next
  case (Cons x xs)
  then show ?case by (cases r) (auto simp: ac_simps)
qed

lemma mset_update_add:
  "i < length ls \<Longrightarrow> mset (ls[i := v]) + {#ls ! i#} = mset ls + {#v#}"
  by (simp add: mset_update)

lemma swap_cells_same_cells:
  assumes "swap_cells b r c r' c' = Inr b'"
  shows "same_cells b' b"
proof -
  define v1 where "v1 = b ! r' ! c'"
  define v2 where "v2 = b ! r ! c"
  define row1 where "row1 = (b ! r)[c := v1]"
  define b1 where "b1 = b[r := row1]"
  define row2 where "row2 = (b1 ! r')[c' := v2]"
  from assms have bnd: "r' < length b" "c' < length (b ! r')" "r < length b" "c < length (b ! r)"
    by (auto simp: swap_cells_def split: if_splits)
  with assms have b': "b' = b1[r' := row2]"
    by (simp add: swap_cells_def Let_def b1_def row1_def row2_def v1_def v2_def)
  have r'1: "r' < length b1" using bnd by (simp add: b1_def)
  have len1: "map length b1 = map length b"
    using bnd by (simp add: b1_def row1_def map_update list_update_same_conv)
  have "map length b' = map length b1"
    using r'1 by (simp add: b' row2_def map_update list_update_same_conv)
  with len1 have shape: "map length b' = map length b" by simp
  have X1: "mset row1 + {#v2#} = mset (b ! r) + {#v1#}"
    unfolding row1_def v2_def using bnd by (rule_tac mset_update_add) simp
  have M1: "mset (concat b1) + mset (b ! r) = mset (concat b) + mset row1"
    unfolding b1_def using bnd by (rule_tac mset_concat_update) simp
  have M2: "mset (concat b') + mset (b1 ! r') = mset (concat b1) + mset row2"
    unfolding b' using r'1 by (rule mset_concat_update)
  have c'1: "c' < length (b1 ! r')"
    using bnd by (cases "r = r'") (simp_all add: b1_def row1_def)
  have v1': "b1 ! r' ! c' = v1"
    using bnd by (cases "r = r'"; cases "c = c'") (simp_all add: b1_def row1_def v1_def)
  have X2: "mset row2 + {#v1#} = mset (b1 ! r') + {#v2#}"
    unfolding row2_def using mset_update_add[OF c'1, of v2] v1' by simp
  have "mset (concat b') + (mset (b1 ! r') + mset (b ! r) + {#v1#} + {#v2#})
        = (mset (concat b') + mset (b1 ! r')) + mset (b ! r) + {#v1#} + {#v2#}"
    by (simp add: ac_simps)
  also have "\<dots> = (mset (concat b1) + mset (b ! r)) + (mset row2 + {#v1#}) + {#v2#}"
    unfolding M2 by (simp add: ac_simps)
  also have "\<dots> = mset (concat b) + (mset row1 + {#v2#}) + (mset (b1 ! r') + {#v2#})"
    unfolding M1 X2 by (simp add: ac_simps)
  also have "\<dots> = mset (concat b) + (mset (b1 ! r') + mset (b ! r) + {#v1#} + {#v2#})"
    unfolding X1 by (simp add: ac_simps)
  finally have "mset (concat b') = mset (concat b)" by simp
  with shape show ?thesis by (simp add: same_cells_def)
qed

section \<open>Result records and path reconstruction\<close>

text \<open>
  A result is the Python dictionary the searches return, as an association list in the
  order of the source's literal.  The value of \<open>time_taken\<close> is wall-clock time and is
  not modelled: the key is present with the opaque value \<open>JElapsed\<close>.
\<close>

datatype jvalue = JBool bool | JStr string | JInt int | JPath "board list" | JElapsed

type_synonym result = "(string \<times> jvalue) list"

fun parent_chain :: "puzzle_state \<Rightarrow> board list" where
  "parent_chain (PuzzleState b None mv d c) = [to_list (PuzzleState b None mv d c)]"
| "parent_chain (PuzzleState b (Some p) mv d c) =
     to_list (PuzzleState b (Some p) mv d c) # parent_chain p"

definition reconstruct_path :: "puzzle_state \<Rightarrow> board list" where
  "reconstruct_path current = rev (parent_chain current)"

definition search_success :: "string \<Rightarrow> string \<Rightarrow> board list \<Rightarrow> int \<Rightarrow> int \<Rightarrow> result" where
  "search_success algorithm size_key path nodes_expanded max_size =
     [(''success'', JBool True),
      (''algorithm'', JStr algorithm),
      (''solution_path'', JPath path),
      (''solution_depth'', JInt (int (length path) - 1)),
      (''nodes_expanded'', JInt nodes_expanded),
      (''time_taken'', JElapsed),
      (size_key, JInt max_size)]"

definition search_failure :: "string \<Rightarrow> string \<Rightarrow> int \<Rightarrow> int \<Rightarrow> result" where
  "search_failure algorithm size_key nodes_expanded max_size =
     [(''success'', JBool False),
      (''algorithm'', JStr algorithm),
      (''nodes_expanded'', JInt nodes_expanded),
      (''time_taken'', JElapsed),
      (size_key, JInt max_size)]"

fun append_unvisited ::
  "puzzle_state list \<Rightarrow> puzzle_state list \<Rightarrow> board set \<Rightarrow> puzzle_state list \<times> board set" where
  "append_unvisited [] frontier visited = (frontier, visited)"
| "append_unvisited (successor # rest) frontier visited =
     (if board successor \<notin> visited
      then append_unvisited rest (frontier @ [successor]) (insert (board successor) visited)
      else append_unvisited rest frontier visited)"

definition frontier_boards :: "puzzle_state list \<Rightarrow> board set" where
  "frontier_boards q = (\<Union>s\<in>set q. rearrangements (board s))"

function bfs_loop :: "puzzle_state list \<Rightarrow> board set \<Rightarrow> int \<Rightarrow> int \<Rightarrow> error + result" where
  "bfs_loop [] visited nodes_expanded max_queue_size =
     Inr (search_failure ''BFS'' ''max_queue_size'' nodes_expanded max_queue_size)"
| "bfs_loop (current # queue) visited nodes_expanded max_queue_size =
     (if is_goal current
      then Inr (search_success ''BFS'' ''max_queue_size'' (reconstruct_path current)
                  (nodes_expanded + 1) (max max_queue_size (int (length (current # queue)))))
      else (case get_successors current of
              Inl e \<Rightarrow> Inl e
            | Inr successors \<Rightarrow>
                bfs_loop (fst (append_unvisited successors queue visited))
                  (snd (append_unvisited successors queue visited))
                  (nodes_expanded + 1) (max max_queue_size (int (length (current # queue))))))"
  by pat_completeness auto

lemma same_cells_refl: "same_cells b b"
  by (simp add: same_cells_def)

lemma same_cells_rearrangements: "same_cells a b \<Longrightarrow> rearrangements a = rearrangements b"
  by (auto simp: same_cells_def rearrangements_def)

lemma successors_loop_same_cells:
  "successors_loop s row col ms = Inr succs \<Longrightarrow> t \<in> set succs \<Longrightarrow> same_cells (board t) (board s)"
proof (induction ms arbitrary: succs)
  case Nil then show ?case by simp
next
  case (Cons m ms)
  obtain dr dc nm where m: "m = (dr, dc, nm)" by (cases m)
  show ?case
  proof (cases "0 \<le> int row + dr \<and> int row + dr < int (size_of s) \<and> 0 \<le> int col + dc \<and> int col + dc < int (size_of s)")
    case False
    with Cons.prems have "successors_loop s row col ms = Inr succs"
      by (simp add: m Let_def)
    with Cons show ?thesis by blast
  next
    case True
    with Cons.prems(1) obtain nb rest where
      nb: "swap_cells (board s) row col (nat (int row + dr)) (nat (int col + dc)) = Inr nb"
      and rest: "successors_loop s row col ms = Inr rest"
      and succs: "succs = PuzzleState_init nb (Some s) (Some nm) (depth s + 1) (cost s + 1) # rest"
      by (auto simp: m Let_def split: sum.splits)
    from Cons.prems(2) succs consider "t = PuzzleState_init nb (Some s) (Some nm) (depth s + 1) (cost s + 1)"
      | "t \<in> set rest" by auto
    then show ?thesis
    proof cases
      case 1
      then have "board t = nb" by (simp add: PuzzleState_init_def)
      with swap_cells_same_cells[OF nb] show ?thesis by simp
    next
      case 2
      with Cons.IH rest show ?thesis by blast
    qed
  qed
qed

lemma get_successors_same_cells:
  "get_successors s = Inr succs \<Longrightarrow> t \<in> set succs \<Longrightarrow> same_cells (board t) (board s)"
  by (auto simp: get_successors_def split: sum.splits option.splits
           dest: successors_loop_same_cells)

lemma append_unvisited_frontier:
  "set (fst (append_unvisited succs q vis)) \<subseteq> set q \<union> set succs"
  by (induction succs q vis rule: append_unvisited.induct) auto

lemma append_unvisited_visited_mono:
  "vis \<subseteq> snd (append_unvisited succs q vis)"
  by (induction succs q vis rule: append_unvisited.induct) auto

lemma append_unvisited_visited_upper:
  "snd (append_unvisited succs q vis) \<subseteq> vis \<union> board ` set succs"
  by (induction succs q vis rule: append_unvisited.induct) auto

lemma append_unvisited_unchanged:
  "snd (append_unvisited succs q vis) = vis \<Longrightarrow> fst (append_unvisited succs q vis) = q"
proof (induction succs q vis rule: append_unvisited.induct)
  case (1 frontier visited) then show ?case by simp
next
  case (2 successor rest frontier visited)
  show ?case
  proof (cases "board successor \<in> visited")
    case True with 2 show ?thesis by simp
  next
    case False
    have "insert (board successor) visited \<subseteq> snd (append_unvisited rest (frontier @ [successor]) (insert (board successor) visited))"
      by (rule append_unvisited_visited_mono)
    with False 2(3) show ?thesis by auto
  qed
qed

lemma finite_frontier_boards: "finite (frontier_boards q)"
  by (simp add: frontier_boards_def finite_rearrangements)

lemma frontier_step_decreases:
  assumes sub: "set q' \<subseteq> set q \<union> set succs"
    and succs: "\<And>t. t \<in> set succs \<Longrightarrow> same_cells (board t) (board current)"
    and mono: "vis \<subseteq> vis'"
    and upper: "vis' \<subseteq> vis \<union> board ` set succs"
    and diff: "vis' \<noteq> vis"
  shows "card (frontier_boards q' - vis') < card (frontier_boards (current # q) - vis)"
proof -
  have U: "frontier_boards q' \<subseteq> frontier_boards (current # q)"
  proof
    fix x assume "x \<in> frontier_boards q'"
    then obtain s where s: "s \<in> set q'" "x \<in> rearrangements (board s)"
      by (auto simp: frontier_boards_def)
    show "x \<in> frontier_boards (current # q)"
    proof (cases "s \<in> set q")
      case True with s show ?thesis by (auto simp: frontier_boards_def)
    next
      case False
      with s sub have "s \<in> set succs" by auto
      then have "rearrangements (board s) = rearrangements (board current)"
        by (intro same_cells_rearrangements succs)
      with s show ?thesis by (auto simp: frontier_boards_def)
    qed
  qed
  from diff mono upper obtain t where t: "t \<in> set succs" "board t \<notin> vis" "board t \<in> vis'"
    by blast
  have "board t \<in> rearrangements (board current)"
    using succs[OF t(1)] by (simp add: rearrangements_def)
  then have "board t \<in> frontier_boards (current # q) - vis"
    using t by (simp add: frontier_boards_def)
  moreover have "board t \<notin> frontier_boards q' - vis'" using t by simp
  moreover have "frontier_boards q' - vis' \<subseteq> frontier_boards (current # q) - vis"
    using U mono by blast
  ultimately have "frontier_boards q' - vis' \<subset> frontier_boards (current # q) - vis"
    by blast
  then show ?thesis
    by (intro psubset_card_mono) (simp_all add: finite_frontier_boards)
qed

lemma frontier_boards_tail: "frontier_boards q \<subseteq> frontier_boards (current # q)"
  by (auto simp: frontier_boards_def)

termination bfs_loop
proof (relation "measures [\<lambda>(q, vis, n, m). card (frontier_boards q - vis), \<lambda>(q, vis, n, m). length q]",
       goal_cases)
  case 1 show ?case by simp
next
  case (2 current queue visited nodes_expanded max_queue_size successors)
  let ?r = "append_unvisited successors queue visited"
  show ?case
  proof (cases "snd ?r = visited")
    case True
    then have q: "fst ?r = queue" by (rule append_unvisited_unchanged)
    have "card (frontier_boards queue - visited) \<le> card (frontier_boards (current # queue) - visited)"
      using frontier_boards_tail[of queue current]
      by (intro card_mono) (auto simp: finite_frontier_boards)
    with True q show ?thesis by auto
  next
    case False
    have "card (frontier_boards (fst ?r) - snd ?r) < card (frontier_boards (current # queue) - visited)"
      using 2 False
      by (intro frontier_step_decreases[where succs = successors]
            append_unvisited_frontier append_unvisited_visited_mono append_unvisited_visited_upper
            get_successors_same_cells)
         auto
    then show ?thesis by simp
  qed
qed

definition bfs_solve :: "puzzle_state \<Rightarrow> error + result" where
  "bfs_solve initial_state = bfs_loop [initial_state] {board initial_state} 0 0"

lemma frontier_step_decreases':
  assumes sub: "set q' \<subseteq> set q \<union> set succs"
    and cur: "current \<in> set q"
    and succs: "\<And>t. t \<in> set succs \<Longrightarrow> same_cells (board t) (board current)"
    and mono: "vis \<subseteq> vis'"
    and upper: "vis' \<subseteq> vis \<union> board ` set succs"
    and diff: "vis' \<noteq> vis"
  shows "card (frontier_boards q' - vis') < card (frontier_boards q - vis)"
proof -
  have U: "frontier_boards q' \<subseteq> frontier_boards q"
  proof
    fix x assume "x \<in> frontier_boards q'"
    then obtain s where s: "s \<in> set q'" "x \<in> rearrangements (board s)"
      by (auto simp: frontier_boards_def)
    show "x \<in> frontier_boards q"
    proof (cases "s \<in> set q")
      case True with s show ?thesis by (auto simp: frontier_boards_def)
    next
      case False
      with s sub have "s \<in> set succs" by auto
      then have "rearrangements (board s) = rearrangements (board current)"
        by (intro same_cells_rearrangements succs)
      with s cur show ?thesis by (auto simp: frontier_boards_def)
    qed
  qed
  from diff mono upper obtain t where t: "t \<in> set succs" "board t \<notin> vis" "board t \<in> vis'"
    by blast
  have "board t \<in> rearrangements (board current)"
    using succs[OF t(1)] by (simp add: rearrangements_def)
  then have "board t \<in> frontier_boards q - vis"
    using t cur by (auto simp: frontier_boards_def)
  moreover have "board t \<notin> frontier_boards q' - vis'" using t by simp
  moreover have "frontier_boards q' - vis' \<subseteq> frontier_boards q - vis"
    using U mono by blast
  ultimately have "frontier_boards q' - vis' \<subset> frontier_boards q - vis"
    by blast
  then show ?thesis
    by (intro psubset_card_mono) (simp_all add: finite_frontier_boards)
qed

lemma frontier_boards_mono: "set q' \<subseteq> set q \<Longrightarrow> frontier_boards q' \<subseteq> frontier_boards q"
  by (auto simp: frontier_boards_def)

lemma frontier_shrink_le:
  "set q' \<subseteq> set q \<Longrightarrow> card (frontier_boards q' - vis) \<le> card (frontier_boards q - vis)"
  using frontier_boards_mono[of q' q]
  by (intro card_mono) (auto simp: finite_frontier_boards)

fun str_nat :: "nat \<Rightarrow> string" where
  "str_nat n =
     (if n < 10 then [char_of (48 + n)] else str_nat (n div 10) @ [char_of (48 + n mod 10)])"

declare str_nat.simps [simp del]

definition str_int :: "int \<Rightarrow> string" where
  "str_int i = (if i < 0 then CHR ''-'' # str_nat (nat (- i)) else str_nat (nat i))"

definition dfs_failure :: "int \<Rightarrow> int \<Rightarrow> int \<Rightarrow> result" where
  "dfs_failure nodes_expanded max_stack_size depth_limit =
     [(''success'', JBool False),
      (''algorithm'', JStr ''DFS''),
      (''nodes_expanded'', JInt nodes_expanded),
      (''time_taken'', JElapsed),
      (''max_stack_size'', JInt max_stack_size),
      (''message'', JStr (''No solution found within depth limit of '' @ str_int depth_limit))]"

function dfs_loop ::
  "puzzle_state list \<Rightarrow> board set \<Rightarrow> int \<Rightarrow> int \<Rightarrow> int \<Rightarrow> error + result" where
  "dfs_loop stack visited nodes_expanded max_stack_size depth_limit =
     (if stack = []
      then Inr (dfs_failure nodes_expanded max_stack_size depth_limit)
      else if is_goal (last stack)
      then Inr (search_success ''DFS'' ''max_stack_size'' (reconstruct_path (last stack))
                  (nodes_expanded + 1) (max max_stack_size (int (length stack))))
      else if depth (last stack) < depth_limit
      then (case get_successors (last stack) of
              Inl e \<Rightarrow> Inl e
            | Inr successors \<Rightarrow>
                dfs_loop (fst (append_unvisited (rev successors) (butlast stack) visited))
                  (snd (append_unvisited (rev successors) (butlast stack) visited))
                  (nodes_expanded + 1) (max max_stack_size (int (length stack))) depth_limit)
      else dfs_loop (butlast stack) visited
             (nodes_expanded + 1) (max max_stack_size (int (length stack))) depth_limit)"
  by pat_completeness auto

lemma set_butlast_subset: "set (butlast xs) \<subseteq> set xs"
  by (induction xs) auto

termination dfs_loop
proof (relation "measures [\<lambda>(q, vis, n, m, l). card (frontier_boards q - vis), \<lambda>(q, vis, n, m, l). length q]",
       goal_cases)
  case 1 show ?case by simp
next
  case (2 stack visited nodes_expanded max_stack_size depth_limit successors)
  let ?r = "append_unvisited (rev successors) (butlast stack) visited"
  show ?case
  proof (cases "snd ?r = visited")
    case True
    then have q: "fst ?r = butlast stack" by (rule append_unvisited_unchanged)
    have "card (frontier_boards (butlast stack) - visited) \<le> card (frontier_boards stack - visited)"
      by (rule frontier_shrink_le) (rule set_butlast_subset)
    with True q 2 show ?thesis by auto
  next
    case False
    have sub: "set (fst ?r) \<subseteq> set stack \<union> set (rev successors)"
      using append_unvisited_frontier[of "rev successors" "butlast stack" visited]
        set_butlast_subset[of stack] by blast
    have "card (frontier_boards (fst ?r) - snd ?r) < card (frontier_boards stack - visited)"
    proof (rule frontier_step_decreases'[where succs = "rev successors" and current = "last stack"])
      show "set (fst ?r) \<subseteq> set stack \<union> set (rev successors)" by (rule sub)
      show "last stack \<in> set stack" using 2 by simp
      show "\<And>t. t \<in> set (rev successors) \<Longrightarrow> same_cells (board t) (board (last stack))"
        using 2 get_successors_same_cells by auto
      show "visited \<subseteq> snd ?r" by (rule append_unvisited_visited_mono)
      show "snd ?r \<subseteq> visited \<union> board ` set (rev successors)"
        by (rule append_unvisited_visited_upper)
      show "snd ?r \<noteq> visited" by (rule False)
    qed
    then show ?thesis by simp
  qed
next
  case (3 stack visited nodes_expanded max_stack_size depth_limit)
  have "card (frontier_boards (butlast stack) - visited) \<le> card (frontier_boards stack - visited)"
    by (rule frontier_shrink_le) (rule set_butlast_subset)
  with 3 show ?case by auto
qed

definition dfs_solve :: "puzzle_state \<Rightarrow> int \<Rightarrow> error + result" where
  "dfs_solve initial_state depth_limit =
     dfs_loop [initial_state] {board initial_state} 0 0 depth_limit"

section \<open>The binary heap of the standard library\<close>

text \<open>
  \<open>heapq.heappush\<close> and \<open>heapq.heappop\<close> on a Python list, with the comparison of
  the queue's entries: tuples \<open>(f, h, state)\<close> are compared lexicographically, the first
  position where the two entries are not equal (\<open>==\<close>) decides with \<open><\<close>.
\<close>

type_synonym heap_item = "int \<times> int \<times> puzzle_state"

definition item_lt :: "heap_item \<Rightarrow> heap_item \<Rightarrow> bool" where
  "item_lt a b =
     (case a of (f1, h1, s1) \<Rightarrow> case b of (f2, h2, s2) \<Rightarrow>
        if f1 \<noteq> f2 then f1 < f2
        else if h1 \<noteq> h2 then h1 < h2
        else if \<not> state_eq s1 s2 then state_lt s1 s2
        else False)"

function siftdown_loop :: "heap_item list \<Rightarrow> nat \<Rightarrow> nat \<Rightarrow> heap_item \<Rightarrow> heap_item list" where
  "siftdown_loop heap startpos pos newitem =
     (if pos > startpos
      then (if item_lt newitem (heap ! ((pos - 1) div 2))
            then siftdown_loop (heap[pos := heap ! ((pos - 1) div 2)]) startpos ((pos - 1) div 2) newitem
            else heap[pos := newitem])
      else heap[pos := newitem])"
  by pat_completeness auto
termination
  by (relation "measure (\<lambda>(heap, startpos, pos, newitem). pos)") auto

definition siftdown :: "heap_item list \<Rightarrow> nat \<Rightarrow> nat \<Rightarrow> heap_item list" where
  "siftdown heap startpos pos = siftdown_loop heap startpos pos (heap ! pos)"

definition smaller_child :: "heap_item list \<Rightarrow> nat \<Rightarrow> nat \<Rightarrow> nat" where
  "smaller_child heap endpos childpos =
     (if childpos + 1 < endpos \<and> \<not> item_lt (heap ! childpos) (heap ! (childpos + 1))
      then childpos + 1 else childpos)"

function siftup_loop :: "heap_item list \<Rightarrow> nat \<Rightarrow> nat \<Rightarrow> nat \<Rightarrow> heap_item list \<times> nat" where
  "siftup_loop heap endpos pos childpos =
     (if childpos < endpos
      then siftup_loop (heap[pos := heap ! smaller_child heap endpos childpos]) endpos
             (smaller_child heap endpos childpos) (2 * smaller_child heap endpos childpos + 1)
      else (heap, pos))"
  by pat_completeness auto
termination
  by (relation "measure (\<lambda>(heap, endpos, pos, childpos). endpos - childpos)")
     (auto simp: smaller_child_def)

definition siftup :: "heap_item list \<Rightarrow> nat \<Rightarrow> heap_item list" where
  "siftup heap pos =
     (case siftup_loop heap (length heap) pos (2 * pos + 1) of
        (heap', pos') \<Rightarrow> siftdown (heap'[pos' := heap ! pos]) pos pos')"

definition heappush :: "heap_item list \<Rightarrow> heap_item \<Rightarrow> heap_item list" where
  "heappush heap item = siftdown (heap @ [item]) 0 (length heap)"

definition heappop :: "heap_item list \<Rightarrow> error + (heap_item \<times> heap_item list)" where
  "heappop heap =
     (if heap = [] then Inl IndexError
      else (let lastelt = last heap; heap1 = butlast heap in
            if heap1 \<noteq> [] then Inr (heap1 ! 0, siftup (heap1[0 := lastelt]) 0)
            else Inr (lastelt, heap1)))"

definition set_cost :: "puzzle_state \<Rightarrow> int \<Rightarrow> puzzle_state" where
  "set_cost s c = PuzzleState (board s) (parent s) (move s) (depth s) c"

fun astar_push ::
  "puzzle_state list \<Rightarrow> heap_item list \<Rightarrow> board set \<Rightarrow> error + (heap_item list \<times> board set)" where
  "astar_push [] priority_queue visited = Inr (priority_queue, visited)"
| "astar_push (successor # rest) priority_queue visited =
     (if board successor \<notin> visited
      then (case manhattan_distance successor of
              Inl e \<Rightarrow> Inl e
            | Inr h_n \<Rightarrow>
                astar_push rest
                  (heappush priority_queue
                     (depth successor + h_n, h_n, set_cost successor (depth successor + h_n)))
                  (insert (board successor) visited))
      else astar_push rest priority_queue visited)"

declare siftdown_loop.simps [simp del] siftup_loop.simps [simp del]

lemma siftdown_loop_length [simp]:
  "length (siftdown_loop heap startpos pos newitem) = length heap"
  by (induction heap startpos pos newitem rule: siftdown_loop.induct)
     (subst siftdown_loop.simps, simp)

lemma siftdown_loop_set:
  "pos < length heap \<Longrightarrow> set (siftdown_loop heap startpos pos newitem) \<subseteq> insert newitem (set heap)"
proof (induction heap startpos pos newitem rule: siftdown_loop.induct)
  case (1 heap startpos pos newitem)
  show ?case
  proof (cases "pos > startpos \<and> item_lt newitem (heap ! ((pos - 1) div 2))")
    case True
    then have p: "(pos - 1) div 2 < length heap" using 1(2) by auto
    have "set (siftdown_loop (heap[pos := heap ! ((pos - 1) div 2)]) startpos ((pos - 1) div 2) newitem)
          \<subseteq> insert newitem (set (heap[pos := heap ! ((pos - 1) div 2)]))"
      using 1(1) True p by simp
    also have "\<dots> \<subseteq> insert newitem (set heap)"
      using set_update_subset_insert[of heap pos "heap ! ((pos - 1) div 2)"] p by auto
    finally show ?thesis using True by (subst siftdown_loop.simps) simp
  next
    case False
    then show ?thesis
      using set_update_subset_insert[of heap pos newitem]
      by (subst siftdown_loop.simps) auto
  qed
qed

lemma siftdown_length [simp]: "length (siftdown heap startpos pos) = length heap"
  by (simp add: siftdown_def)

lemma siftdown_set: "pos < length heap \<Longrightarrow> set (siftdown heap startpos pos) \<subseteq> set heap"
  using siftdown_loop_set[of pos heap startpos "heap ! pos"] by (auto simp: siftdown_def)

lemma smaller_child_less: "childpos < endpos \<Longrightarrow> smaller_child heap endpos childpos < endpos"
  by (simp add: smaller_child_def)

lemma siftup_loop_length [simp]:
  "length (fst (siftup_loop heap endpos pos childpos)) = length heap"
  by (induction heap endpos pos childpos rule: siftup_loop.induct)
     (subst siftup_loop.simps, simp)

lemma siftup_loop_set:
  "endpos \<le> length heap \<Longrightarrow> set (fst (siftup_loop heap endpos pos childpos)) \<subseteq> set heap"
proof (induction heap endpos pos childpos rule: siftup_loop.induct)
  case (1 heap endpos pos childpos)
  show ?case
  proof (cases "childpos < endpos")
    case True
    let ?c = "smaller_child heap endpos childpos"
    have c: "?c < length heap" using smaller_child_less[OF True, of heap] 1(2) by simp
    have "set (fst (siftup_loop (heap[pos := heap ! ?c]) endpos ?c (2 * ?c + 1)))
          \<subseteq> set (heap[pos := heap ! ?c])"
      using 1(1)[OF True] 1(2) by simp
    also have "\<dots> \<subseteq> set heap"
      using set_update_subset_insert[of heap pos "heap ! ?c"] c by auto
    finally show ?thesis using True by (subst siftup_loop.simps) simp
  next
    case False
    then show ?thesis by (subst siftup_loop.simps) simp
  qed
qed

lemma siftup_loop_pos:
  "pos < endpos \<Longrightarrow> snd (siftup_loop heap endpos pos childpos) < endpos"
proof (induction heap endpos pos childpos rule: siftup_loop.induct)
  case (1 heap endpos pos childpos)
  show ?case
  proof (cases "childpos < endpos")
    case True
    then show ?thesis
      using 1(1)[OF True] smaller_child_less[OF True, of heap]
      by (subst siftup_loop.simps) simp
  next
    case False
    then show ?thesis using 1(2) by (subst siftup_loop.simps) simp
  qed
qed

lemma siftup_length [simp]: "length (siftup heap pos) = length heap"
  by (simp add: siftup_def split: prod.splits)
     (metis fst_conv siftup_loop_length)

lemma siftup_set: "pos < length heap \<Longrightarrow> set (siftup heap pos) \<subseteq> set heap"
proof -
  assume pos: "pos < length heap"
  obtain heap' pos' where r: "siftup_loop heap (length heap) pos (2 * pos + 1) = (heap', pos')"
    by (cases "siftup_loop heap (length heap) pos (2 * pos + 1)")
  have h': "set heap' \<subseteq> set heap" "length heap' = length heap"
    using siftup_loop_set[of "length heap" heap pos "2 * pos + 1"]
      siftup_loop_length[of heap "length heap" pos "2 * pos + 1"] r by (simp_all del: siftup_loop_length)
  have p': "pos' < length heap"
    using siftup_loop_pos[OF pos, of heap "2 * pos + 1"] r by simp
  have "set (siftdown (heap'[pos' := heap ! pos]) pos pos') \<subseteq> set (heap'[pos' := heap ! pos])"
    using p' h' by (intro siftdown_set) simp
  also have "\<dots> \<subseteq> insert (heap ! pos) (set heap')" by (rule set_update_subset_insert)
  also have "\<dots> \<subseteq> set heap" using h' pos by auto
  finally show ?thesis unfolding siftup_def r by simp
qed

lemma heappush_length [simp]: "length (heappush heap item) = Suc (length heap)"
  by (simp add: heappush_def)

lemma heappush_set: "set (heappush heap item) \<subseteq> insert item (set heap)"
  using siftdown_set[of "length heap" "heap @ [item]" 0] by (auto simp: heappush_def)

lemma heappop_length:
  "heappop heap = Inr (x, heap') \<Longrightarrow> Suc (length heap') = length heap"
  by (cases heap rule: rev_cases) (auto simp: heappop_def Let_def split: if_splits)

lemma heappop_set:
  assumes "heappop heap = Inr (x, heap')"
  shows "x \<in> set heap \<and> set heap' \<subseteq> set heap"
proof -
  from assms have ne: "heap \<noteq> []" by (auto simp: heappop_def)
  show ?thesis
  proof (cases "butlast heap = []")
    case True
    with assms ne have "x = last heap" "heap' = []"
      by (auto simp: heappop_def Let_def)
    with ne show ?thesis by simp
  next
    case False
    with assms ne have x: "x = butlast heap ! 0"
      and h: "heap' = siftup ((butlast heap)[0 := last heap]) 0"
      by (auto simp: heappop_def Let_def)
    have "x \<in> set (butlast heap)" using False x by (cases "butlast heap") simp_all
    then have x_in: "x \<in> set heap" using set_butlast_subset[of heap] by blast
    have "set heap' \<subseteq> set ((butlast heap)[0 := last heap])"
      unfolding h using False by (intro siftup_set) (simp del: length_butlast)
    also have "\<dots> \<subseteq> insert (last heap) (set (butlast heap))"
      by (rule set_update_subset_insert)
    also have "\<dots> \<subseteq> set heap" using ne set_butlast_subset[of heap] by auto
    finally show ?thesis using x_in by simp
  qed
qed

lemma heappop_nonempty_eq:
  "heap \<noteq> [] \<Longrightarrow>
   heappop heap = Inr (if butlast heap \<noteq> []
                       then (butlast heap ! 0, siftup ((butlast heap)[0 := last heap]) 0)
                       else (last heap, butlast heap))"
  by (simp add: heappop_def Let_def)

lemma heappop_nonempty: "heap \<noteq> [] \<Longrightarrow> \<exists>r. heappop heap = Inr r"
  using heappop_nonempty_eq by blast

definition heap_states :: "heap_item list \<Rightarrow> puzzle_state list" where
  "heap_states heap = map (\<lambda>item. snd (snd item)) heap"

lemma board_set_cost [simp]: "board (set_cost s c) = board s"
  by (simp add: set_cost_def)

lemma heappush_states:
  "set (heap_states (heappush pq item)) \<subseteq> insert (snd (snd item)) (set (heap_states pq))"
proof -
  have "set (heap_states (heappush pq item)) = (\<lambda>item. snd (snd item)) ` set (heappush pq item)"
    by (simp add: heap_states_def)
  also have "\<dots> \<subseteq> (\<lambda>item. snd (snd item)) ` insert item (set pq)"
    by (intro image_mono heappush_set)
  also have "\<dots> = insert (snd (snd item)) (set (heap_states pq))"
    by (simp add: heap_states_def)
  finally show ?thesis .
qed

lemma astar_push_states:
  "astar_push succs pq vis = Inr (pq', vis') \<Longrightarrow>
   board ` set (heap_states pq') \<subseteq> board ` set (heap_states pq) \<union> board ` set succs"
proof (induction succs arbitrary: pq vis)
  case Nil then show ?case by auto
next
  case (Cons s succs)
  show ?case
  proof (cases "board s \<in> vis")
    case True
    with Cons.prems have "astar_push succs pq vis = Inr (pq', vis')" by simp
    from Cons.IH[OF this] show ?thesis by auto
  next
    case False
    with Cons.prems obtain h where h: "manhattan_distance s = Inr h"
      and r: "astar_push succs (heappush pq (depth s + h, h, set_cost s (depth s + h))) (insert (board s) vis) = Inr (pq', vis')"
      by (auto split: sum.splits)
    have "board ` set (heap_states (heappush pq (depth s + h, h, set_cost s (depth s + h))))
          \<subseteq> insert (board s) (board ` set (heap_states pq))"
      using heappush_states[of pq "(depth s + h, h, set_cost s (depth s + h))"]
      by auto
    with Cons.IH[OF r] show ?thesis by auto
  qed
qed

lemma astar_push_visited_mono:
  "astar_push succs pq vis = Inr (pq', vis') \<Longrightarrow> vis \<subseteq> vis'"
  by (induction succs arbitrary: pq vis) (auto split: if_splits sum.splits)

lemma astar_push_visited_upper:
  "astar_push succs pq vis = Inr (pq', vis') \<Longrightarrow> vis' \<subseteq> vis \<union> board ` set succs"
  by (induction succs arbitrary: pq vis) (auto split: if_splits sum.splits)

lemma astar_push_unchanged:
  "astar_push succs pq vis = Inr (pq', vis') \<Longrightarrow> vis' = vis \<Longrightarrow> pq' = pq"
proof (induction succs arbitrary: pq vis)
  case Nil then show ?case by simp
next
  case (Cons s succs)
  show ?case
  proof (cases "board s \<in> vis")
    case True with Cons show ?thesis by auto
  next
    case False
    with Cons.prems obtain pq1 where "astar_push succs pq1 (insert (board s) vis) = Inr (pq', vis')"
      by (auto split: sum.splits)
    from astar_push_visited_mono[OF this] Cons.prems(2) False show ?thesis by auto
  qed
qed

function astar_loop :: "heap_item list \<Rightarrow> board set \<Rightarrow> int \<Rightarrow> int \<Rightarrow> error + result" where
  "astar_loop priority_queue visited nodes_expanded max_queue_size =
     (if priority_queue = []
      then Inr (search_failure ''A*'' ''max_queue_size'' nodes_expanded max_queue_size)
      else (case heappop priority_queue of
              Inl e \<Rightarrow> Inl e
            | Inr popped \<Rightarrow>
                if is_goal (snd (snd (fst popped)))
                then Inr (search_success ''A*'' ''max_queue_size''
                            (reconstruct_path (snd (snd (fst popped))))
                            (nodes_expanded + 1)
                            (max max_queue_size (int (length priority_queue))))
                else (case get_successors (snd (snd (fst popped))) of
                        Inl e \<Rightarrow> Inl e
                      | Inr successors \<Rightarrow>
                          (case astar_push successors (snd popped) visited of
                             Inl e \<Rightarrow> Inl e
                           | Inr pushed \<Rightarrow>
                               astar_loop (fst pushed) (snd pushed) (nodes_expanded + 1)
                                 (max max_queue_size (int (length priority_queue)))))))"
  by pat_completeness auto

definition heap_boards :: "heap_item list \<Rightarrow> board set" where
  "heap_boards heap = frontier_boards (heap_states heap)"

lemma frontier_boards_eq: "frontier_boards q = (\<Union>b\<in>board ` set q. rearrangements b)"
  by (auto simp: frontier_boards_def)

lemma finite_heap_boards: "finite (heap_boards heap)"
  by (simp add: heap_boards_def finite_frontier_boards)

termination astar_loop
proof (relation "measures [\<lambda>(pq, vis, n, m). card (heap_boards pq - vis), \<lambda>(pq, vis, n, m). length pq]",
       goal_cases)
  case 1 show ?case by simp
next
  case (2 priority_queue visited nodes_expanded max_queue_size popped successors pushed)
  obtain item pq1 where popped: "popped = (item, pq1)" by (cases popped)
  obtain pq2 vis2 where pushed: "pushed = (pq2, vis2)" by (cases pushed)
  let ?cur = "snd (snd item)"
  from 2 popped have pop: "heappop priority_queue = Inr (item, pq1)" by simp
  from 2 popped have succs: "get_successors ?cur = Inr successors" by simp
  from 2 popped pushed have push: "astar_push successors pq1 visited = Inr (pq2, vis2)" by simp
  from heappop_set[OF pop] have item: "item \<in> set priority_queue" and sub1: "set pq1 \<subseteq> set priority_queue"
    by simp_all
  have cur: "?cur \<in> set (heap_states priority_queue)"
    using item by (auto simp: heap_states_def)
  have hb1: "board ` set (heap_states pq1) \<subseteq> board ` set (heap_states priority_queue)"
    using sub1 by (auto simp: heap_states_def)
  have hb2: "board ` set (heap_states pq2) \<subseteq> board ` set (heap_states priority_queue) \<union> board ` set successors"
    using astar_push_states[OF push] hb1 by blast
  have same: "\<And>t. t \<in> set successors \<Longrightarrow> same_cells (board t) (board ?cur)"
    using get_successors_same_cells[OF succs] by blast
  have U: "heap_boards pq2 \<subseteq> heap_boards priority_queue"
  proof
    fix x assume "x \<in> heap_boards pq2"
    then obtain b where b: "b \<in> board ` set (heap_states pq2)" "x \<in> rearrangements b"
      by (auto simp: heap_boards_def frontier_boards_eq)
    show "x \<in> heap_boards priority_queue"
    proof (cases "b \<in> board ` set (heap_states priority_queue)")
      case True with b show ?thesis by (auto simp: heap_boards_def frontier_boards_eq)
    next
      case False
      with b hb2 obtain t where t: "t \<in> set successors" "b = board t" by blast
      then have "rearrangements b = rearrangements (board ?cur)"
        using same same_cells_rearrangements by simp
      with b cur show ?thesis by (auto simp: heap_boards_def frontier_boards_eq)
    qed
  qed
  have mono: "visited \<subseteq> vis2" by (rule astar_push_visited_mono[OF push])
  show ?case
  proof (cases "vis2 = visited")
    case True
    with astar_push_unchanged[OF push] have "pq2 = pq1" by simp
    with heappop_length[OF pop] have len: "length pq2 < length priority_queue" by simp
    have "card (heap_boards pq2 - visited) \<le> card (heap_boards priority_queue - visited)"
      using U by (intro card_mono) (auto simp: finite_heap_boards)
    with True len pushed show ?thesis by auto
  next
    case False
    with mono astar_push_visited_upper[OF push]
    obtain t where t: "t \<in> set successors" "board t \<notin> visited" "board t \<in> vis2" by blast
    have "board t \<in> rearrangements (board ?cur)"
      using same[OF t(1)] by (simp add: rearrangements_def)
    then have "board t \<in> heap_boards priority_queue - visited"
      using t cur by (auto simp: heap_boards_def frontier_boards_eq)
    moreover have "board t \<notin> heap_boards pq2 - vis2" using t by simp
    moreover have "heap_boards pq2 - vis2 \<subseteq> heap_boards priority_queue - visited"
      using U mono by blast
    ultimately have "heap_boards pq2 - vis2 \<subset> heap_boards priority_queue - visited"
      by blast
    then have "card (heap_boards pq2 - vis2) < card (heap_boards priority_queue - visited)"
      by (intro psubset_card_mono) (simp_all add: finite_heap_boards)
    with pushed show ?thesis by simp
  qed
qed

definition astar_solve :: "puzzle_state \<Rightarrow> error + result" where
  "astar_solve initial_state =
     (case manhattan_distance initial_state of
        Inl e \<Rightarrow> Inl e
      | Inr h \<Rightarrow>
          (let initial_state' = set_cost initial_state h in
           astar_loop [(cost initial_state', cost initial_state', initial_state')]
             {board initial_state'} 0 0))"

definition times_sign :: string where
  "times_sign = [char_of (195::nat), char_of (151::nat)]"

definition size_error :: "nat \<Rightarrow> result" where
  "size_error n =
     [(''success'', JBool False),
      (''error'', JStr (''Invalid puzzle size. Only 2'' @ times_sign @ ''2 and 3'' @ times_sign
         @ ''3 puzzles are supported. Got '' @ str_int (int n) @ times_sign
         @ str_int (int n) @ ''.''))]"

definition row_error :: "nat \<Rightarrow> result" where
  "row_error n =
     [(''success'', JBool False),
      (''error'', JStr (''Invalid puzzle: All rows must have the same size (''
         @ str_int (int n) @ '').''))]"

definition algorithm_error :: "string \<Rightarrow> result" where
  "algorithm_error algorithm =
     [(''success'', JBool False),
      (''error'', JStr (''Unknown algorithm: '' @ algorithm))]"

definition solve_puzzle :: "board \<Rightarrow> string \<Rightarrow> error + result" where
  "solve_puzzle initial_board algorithm =
     (let n = length initial_board in
      if n \<notin> set [2, 3] then Inr (size_error n)
      else if (\<exists>row \<in> set initial_board. length row \<noteq> n) then Inr (row_error n)
      else (let initial_state = PuzzleState_init initial_board None None 0 0 in
            if algorithm = ''BFS'' then bfs_solve initial_state
            else if algorithm = ''DFS'' then dfs_solve initial_state 50
            else if algorithm = ''A*'' then astar_solve initial_state
            else Inr (algorithm_error algorithm)))"

text \<open>The two shape checks of \<open>solve_puzzle\<close>.\<close>

definition malformed :: "board \<Rightarrow> bool" where
  "malformed b = (length b \<notin> set [2, 3] \<or> (\<exists>row \<in> set b. length row \<noteq> length b))"

text \<open>The bounds test of \<open>get_successors\<close> for one entry of \<open>moves\<close>.\<close>

definition in_bounds :: "puzzle_state \<Rightarrow> nat \<Rightarrow> nat \<Rightarrow> int \<times> int \<times> string \<Rightarrow> bool" where
  "in_bounds s row col m =
     (case m of (dr, dc, move_name) \<Rightarrow>
        0 \<le> int row + dr \<and> int row + dr < int (size_of s)
        \<and> 0 \<le> int col + dc \<and> int col + dc < int (size_of s))"

text \<open>
  The permutation invariant of the data model: an \<open>n\<close> by \<open>n\<close> board that holds each of the
  integers \<open>0 .. n\<^sup>2 - 1\<close> exactly once.
\<close>

definition valid_board :: "nat \<Rightarrow> board \<Rightarrow> bool" where
  "valid_board n b =
     (length b = n \<and> (\<forall>row \<in> set b. length row = n)
      \<and> mset (concat b) = mset (map int [0..<n * n]))"

text \<open>
  One legal move of the puzzle, on boards: the blank (a cell holding 0) changes places with
  an orthogonally adjacent cell.
\<close>

definition adjacent :: "nat \<Rightarrow> nat \<Rightarrow> nat \<Rightarrow> nat \<Rightarrow> bool" where
  "adjacent r c r' c' =
     ((r' = r \<and> (c' = c + 1 \<or> c = c' + 1)) \<or> (c' = c \<and> (r' = r + 1 \<or> r = r' + 1)))"

definition slide :: "board \<Rightarrow> board \<Rightarrow> bool" where
  "slide a b =
     (\<exists>r c r' c'. r < length a \<and> c < length (a ! r) \<and> a ! r ! c = 0
        \<and> adjacent r c r' c' \<and> swap_cells a r c r' c' = Inr b)"

text \<open>
  The configurations (frontier and visited set) with which the three search loops are
  entered, starting from the configuration set up by the search function: one rule for the
  initial configuration, one rule for each way the loop body goes round.
\<close>

inductive bfs_reach :: "puzzle_state \<Rightarrow> puzzle_state list \<Rightarrow> board set \<Rightarrow> bool"
  for initial_state where
  bfs_start: "bfs_reach initial_state [initial_state] {board initial_state}"
| bfs_expand:
    "bfs_reach initial_state (current # queue) visited \<Longrightarrow> \<not> is_goal current \<Longrightarrow>
     get_successors current = Inr successors \<Longrightarrow>
     bfs_reach initial_state (fst (append_unvisited successors queue visited))
       (snd (append_unvisited successors queue visited))"

inductive dfs_reach :: "puzzle_state \<Rightarrow> int \<Rightarrow> puzzle_state list \<Rightarrow> board set \<Rightarrow> bool"
  for initial_state depth_limit where
  dfs_start: "dfs_reach initial_state depth_limit [initial_state] {board initial_state}"
| dfs_expand:
    "dfs_reach initial_state depth_limit stack visited \<Longrightarrow> stack \<noteq> [] \<Longrightarrow>
     \<not> is_goal (last stack) \<Longrightarrow> depth (last stack) < depth_limit \<Longrightarrow>
     get_successors (last stack) = Inr successors \<Longrightarrow>
     dfs_reach initial_state depth_limit
       (fst (append_unvisited (rev successors) (butlast stack) visited))
       (snd (append_unvisited (rev successors) (butlast stack) visited))"
| dfs_cutoff:
    "dfs_reach initial_state depth_limit stack visited \<Longrightarrow> stack \<noteq> [] \<Longrightarrow>
     \<not> is_goal (last stack) \<Longrightarrow> \<not> depth (last stack) < depth_limit \<Longrightarrow>
     dfs_reach initial_state depth_limit (butlast stack) visited"

inductive astar_reach :: "puzzle_state \<Rightarrow> heap_item list \<Rightarrow> board set \<Rightarrow> bool"
  for initial_state where
  astar_start:
    "manhattan_distance initial_state = Inr h \<Longrightarrow>
     astar_reach initial_state [(h, h, set_cost initial_state h)] {board initial_state}"
| astar_expand:
    "astar_reach initial_state priority_queue visited \<Longrightarrow>
     heappop priority_queue = Inr (item, rest) \<Longrightarrow> \<not> is_goal (snd (snd item)) \<Longrightarrow>
     get_successors (snd (snd item)) = Inr successors \<Longrightarrow>
     astar_push successors rest visited = Inr (priority_queue', visited') \<Longrightarrow>
     astar_reach initial_state priority_queue' visited'"

fun slide_path :: "board list \<Rightarrow> bool" where
  "slide_path [] = True"
| "slide_path [a] = True"
| "slide_path (a # b # rest) = (slide a b \<and> slide_path (b # rest))"

text \<open>
  The contribution of one cell to the Manhattan distance: nothing for the blank, otherwise
  the row and column offsets of the tile from its position in the table.
\<close>

definition tile_distance :: "(int \<times> (int \<times> int)) list \<Rightarrow> nat \<Rightarrow> nat \<Rightarrow> int \<Rightarrow> int" where
  "tile_distance tbl i j tile =
     (if tile = 0 then 0
      else case map_of tbl tile of
             None \<Rightarrow> 0
           | Some (goal_row, goal_col) \<Rightarrow> \<bar>int i - goal_row\<bar> + \<bar>int j - goal_col\<bar>)"

definition goal_table :: "nat \<Rightarrow> (int \<times> (int \<times> int)) list" where
  "goal_table n = (if n = 2 then goal_positions2 else goal_positions3)"

definition cells :: "nat \<Rightarrow> (nat \<times> nat) set" where
  "cells n = {0..<n} \<times> {0..<n}"

definition manhattan_sum :: "nat \<Rightarrow> board \<Rightarrow> int" where
  "manhattan_sum n b = (\<Sum>(i, j) \<in> cells n. tile_distance (goal_table n) i j (b ! i ! j))"

definition goal_board :: "nat \<Rightarrow> board" where
  "goal_board n = (if n = 2 then goal2 else goal3)"

text \<open>
  The number of moves recorded in the parent chain of a state, and reachability of one board
  from another in a given number of legal moves.
\<close>

definition level :: "puzzle_state \<Rightarrow> nat" where
  "level t = length (reconstruct_path t) - 1"

definition reach_in :: "nat \<Rightarrow> board \<Rightarrow> board \<Rightarrow> bool" where
  "reach_in k a b =
     (\<exists>p. p \<noteq> [] \<and> hd p = a \<and> last p = b \<and> slide_path p \<and> length p = Suc k)"

text \<open>
  The invariant of the breadth-first loop: the queue is ordered by level and spans at most
  two levels, the level of a queued state is the least number of moves that reaches its
  board, every board within the level of the head is visited, and the boards that have left
  the queue are not the goal and have all their neighbours visited.
\<close>

definition bfs_inv :: "nat \<Rightarrow> board \<Rightarrow> puzzle_state list \<Rightarrow> board set \<Rightarrow> bool" where
  "bfs_inv n b0 queue visited =
     (b0 \<in> visited
      \<and> (\<forall>t \<in> set queue. board t \<in> visited \<and> reach_in (level t) b0 (board t)
            \<and> (\<forall>k. reach_in k b0 (board t) \<longrightarrow> level t \<le> k))
      \<and> sorted (map level queue)
      \<and> (queue \<noteq> [] \<longrightarrow> level (last queue) \<le> Suc (level (hd queue)))
      \<and> (queue \<noteq> [] \<longrightarrow> (\<forall>k b. k \<le> level (hd queue) \<longrightarrow> reach_in k b0 b \<longrightarrow> b \<in> visited))
      \<and> (\<forall>a \<in> visited. a \<notin> board ` set queue \<longrightarrow>
            a \<noteq> goal_board n \<and> (\<forall>b. slide a b \<longrightarrow> b \<in> visited))
      \<and> (\<forall>a \<in> visited. valid_board n a))"

text \<open>
  \<open>solve_puzzle\<close> once more, statement by statement, with the constructor calls and the
  search calls of its body written down in the order in which it makes them: the initial
  state is constructed after the two shape checks and before the algorithm name is looked
  at.  The second component is the value that \<open>solve_puzzle\<close> returns.
\<close>

datatype event = Constructed puzzle_state | Called string puzzle_state

definition solve_puzzle_traced :: "board \<Rightarrow> string \<Rightarrow> event list \<times> (error + result)" where
  "solve_puzzle_traced initial_board algorithm =
     (let n = length initial_board in
      if n \<notin> set [2, 3] then ([], Inr (size_error n))
      else if (\<exists>row \<in> set initial_board. length row \<noteq> n) then ([], Inr (row_error n))
      else (let initial_state = PuzzleState_init initial_board None None 0 0 in
            if algorithm = ''BFS''
            then ([Constructed initial_state, Called ''bfs_solve'' initial_state],
                  bfs_solve initial_state)
            else if algorithm = ''DFS''
            then ([Constructed initial_state, Called ''dfs_solve'' initial_state],
                  dfs_solve initial_state 50)
            else if algorithm = ''A*''
            then ([Constructed initial_state, Called ''astar_solve'' initial_state],
                  astar_solve initial_state)
            else ([Constructed initial_state], Inr (algorithm_error algorithm))))"

definition solve_puzzle_events :: "board \<Rightarrow> string \<Rightarrow> event list" where
  "solve_puzzle_events initial_board algorithm = fst (solve_puzzle_traced initial_board algorithm)"

text \<open>
  Every tile of the board has an entry in the table of goal positions that
  \<open>manhattan_distance\<close> uses for a board of this size.
\<close>

definition tiles_have_goal :: "board \<Rightarrow> bool" where
  "tiles_have_goal b =
     (\<forall>row \<in> set b. \<forall>tile \<in> set row.
        map_of (if length b = 2 then goal_positions2 else goal_positions3) tile \<noteq> None)"

text \<open>
  The loop of \<open>dfs_solve\<close> once more, statement by statement, together with the states
  that \<open>stack.pop()\<close> returns, in the order in which it returns them.  The second
  component is the value of \<open>dfs_loop\<close>.
\<close>

function dfs_loop_traced ::
  "puzzle_state list \<Rightarrow> board set \<Rightarrow> int \<Rightarrow> int \<Rightarrow> int
     \<Rightarrow> puzzle_state list \<times> (error + result)" where
  "dfs_loop_traced stack visited nodes_expanded max_stack_size depth_limit =
     (if stack = []
      then ([], Inr (dfs_failure nodes_expanded max_stack_size depth_limit))
      else if is_goal (last stack)
      then ([last stack],
            Inr (search_success ''DFS'' ''max_stack_size'' (reconstruct_path (last stack))
                  (nodes_expanded + 1) (max max_stack_size (int (length stack)))))
      else if depth (last stack) < depth_limit
      then (case get_successors (last stack) of
              Inl e \<Rightarrow> ([last stack], Inl e)
            | Inr successors \<Rightarrow>
                apfst ((#) (last stack))
                  (dfs_loop_traced (fst (append_unvisited (rev successors) (butlast stack) visited))
                     (snd (append_unvisited (rev successors) (butlast stack) visited))
                     (nodes_expanded + 1) (max max_stack_size (int (length stack))) depth_limit))
      else apfst ((#) (last stack))
             (dfs_loop_traced (butlast stack) visited
                (nodes_expanded + 1) (max max_stack_size (int (length stack))) depth_limit))"
  by pat_completeness auto

termination dfs_loop_traced
proof (relation "measures [\<lambda>(q, vis, n, m, l). card (frontier_boards q - vis), \<lambda>(q, vis, n, m, l). length q]",
       goal_cases)
  case 1 show ?case by simp
next
  case (2 stack visited nodes_expanded max_stack_size depth_limit successors)
  let ?r = "append_unvisited (rev successors) (butlast stack) visited"
  show ?case
  proof (cases "snd ?r = visited")
    case True
    then have q: "fst ?r = butlast stack" by (rule append_unvisited_unchanged)
    have "card (frontier_boards (butlast stack) - visited) \<le> card (frontier_boards stack - visited)"
      by (rule frontier_shrink_le) (rule set_butlast_subset)
    with True q 2 show ?thesis by auto
  next
    case False
    have sub: "set (fst ?r) \<subseteq> set stack \<union> set (rev successors)"
      using append_unvisited_frontier[of "rev successors" "butlast stack" visited]
        set_butlast_subset[of stack] by blast
    have "card (frontier_boards (fst ?r) - snd ?r) < card (frontier_boards stack - visited)"
    proof (rule frontier_step_decreases'[where succs = "rev successors" and current = "last stack"])
      show "set (fst ?r) \<subseteq> set stack \<union> set (rev successors)" by (rule sub)
      show "last stack \<in> set stack" using 2 by simp
      show "\<And>t. t \<in> set (rev successors) \<Longrightarrow> same_cells (board t) (board (last stack))"
        using 2 get_successors_same_cells by auto
      show "visited \<subseteq> snd ?r" by (rule append_unvisited_visited_mono)
      show "snd ?r \<subseteq> visited \<union> board ` set (rev successors)"
        by (rule append_unvisited_visited_upper)
      show "snd ?r \<noteq> visited" by (rule False)
    qed
    then show ?thesis by simp
  qed
next
  case (3 stack visited nodes_expanded max_stack_size depth_limit)
  have "card (frontier_boards (butlast stack) - visited) \<le> card (frontier_boards stack - visited)"
    by (rule frontier_shrink_le) (rule set_butlast_subset)
  with 3 show ?case by auto
qed

declare dfs_loop_traced.simps [simp del]

text \<open>The states popped by the loop entered with the given stack and visited set.\<close>

definition dfs_pops :: "puzzle_state list \<Rightarrow> board set \<Rightarrow> int \<Rightarrow> puzzle_state list" where
  "dfs_pops stack visited depth_limit = fst (dfs_loop_traced stack visited 0 0 depth_limit)"



declare dfs_loop.simps [simp del] astar_loop.simps [simp del]

section \<open>Boards without a blank\<close>

lemma find_empty_cols_none:
  "\<forall>j\<in>set js. j < length row \<and> row ! j \<noteq> 0 \<Longrightarrow> find_empty_cols row js = Inr None"
  by (induction js) auto

lemma find_empty_rows_none:
  "\<forall>i\<in>set is. i < length b \<and> find_empty_cols (b ! i) [0..<n] = Inr None \<Longrightarrow>
   find_empty_rows b n is = Inr None"
  by (induction "is") auto

definition shape_valid :: "board \<Rightarrow> bool" where
  "shape_valid b = (length b \<in> set [2, 3] \<and> (\<forall>row \<in> set b. length row = length b))"

definition no_blank :: "board \<Rightarrow> bool" where
  "no_blank b = (\<forall>row \<in> set b. 0 \<notin> set row)"

lemma find_empty_no_blank:
  assumes "\<forall>row \<in> set (board s). length row = length (board s)" "no_blank (board s)"
  shows "find_empty s = Inr None"
proof -
  have "find_empty_cols (board s ! i) [0..<size_of s] = Inr None" if "i < length (board s)" for i
  proof (rule find_empty_cols_none, rule ballI)
    fix j assume "j \<in> set [0..<size_of s]"
    then have j: "j < length (board s)" by (simp add: size_of_def)
    have row: "board s ! i \<in> set (board s)" using that by simp
    with assms have len: "length (board s ! i) = length (board s)" and nz: "0 \<notin> set (board s ! i)"
      by (auto simp: no_blank_def)
    from j len have "board s ! i ! j \<in> set (board s ! i)" by simp
    with nz have "board s ! i ! j \<noteq> 0" by metis
    with j len show "j < length (board s ! i) \<and> board s ! i ! j \<noteq> 0" by simp
  qed
  then show ?thesis
    unfolding find_empty_def by (intro find_empty_rows_none) (simp add: size_of_def)
qed

lemma get_successors_no_blank:
  assumes "\<forall>row \<in> set (board s). length row = length (board s)" "no_blank (board s)"
  shows "get_successors s = Inl TypeError"
  by (simp add: get_successors_def find_empty_no_blank[OF assms])

lemma no_blank_not_goal: "no_blank (board s) \<Longrightarrow> \<not> is_goal s"
  by (auto simp: is_goal_def no_blank_def goal2_def goal3_def split: if_splits)

lemma manhattan_cols_shape:
  "\<forall>j\<in>set js. j < length row \<Longrightarrow>
   manhattan_cols tbl row i js d = Inl KeyError \<or> (\<exists>v. manhattan_cols tbl row i js d = Inr v)"
  by (induction js arbitrary: d) (auto simp: Let_def split: option.splits)

lemma manhattan_rows_shape:
  "\<forall>i\<in>set is. i < length b \<and> length (b ! i) = n \<Longrightarrow>
   manhattan_rows tbl b n is d = Inl KeyError \<or> (\<exists>v. manhattan_rows tbl b n is d = Inr v)"
proof (induction "is" arbitrary: d)
  case Nil then show ?case by simp
next
  case (Cons i "is")
  have "manhattan_cols tbl (b ! i) i [0..<n] d = Inl KeyError
        \<or> (\<exists>v. manhattan_cols tbl (b ! i) i [0..<n] d = Inr v)"
    using Cons.prems by (intro manhattan_cols_shape) simp
  then show ?case using Cons by (auto split: sum.splits)
qed

lemma manhattan_distance_shape:
  assumes "\<forall>row \<in> set (board s). length row = length (board s)"
  shows "manhattan_distance s = Inl KeyError \<or> (\<exists>v. manhattan_distance s = Inr v)"
  unfolding manhattan_distance_def using assms
  by (intro manhattan_rows_shape) (simp add: size_of_def)

lemma board_init [simp]: "board (PuzzleState_init b p m d c) = b"
  by (simp add: PuzzleState_init_def)

lemma depth_init [simp]: "depth (PuzzleState_init b p m d c) = d"
  by (simp add: PuzzleState_init_def)

lemma bfs_solve_no_blank:
  assumes "\<forall>row \<in> set (board s). length row = length (board s)" "no_blank (board s)"
  shows "bfs_solve s = Inl TypeError"
  by (simp add: bfs_solve_def no_blank_not_goal[OF assms(2)] get_successors_no_blank[OF assms])

lemma dfs_solve_no_blank:
  assumes "\<forall>row \<in> set (board s). length row = length (board s)" "no_blank (board s)" "depth s < limit"
  shows "dfs_solve s limit = Inl TypeError"
  using assms(3)
  by (simp add: dfs_solve_def dfs_loop.simps[of "[s]"] no_blank_not_goal[OF assms(2)]
        get_successors_no_blank[OF assms(1,2)])

lemma size_of_set_cost [simp]: "size_of (set_cost s c) = size_of s"
  by (simp add: size_of_def)

lemma is_goal_set_cost [simp]: "is_goal (set_cost s c) = is_goal s"
  by (simp add: is_goal_def)

lemma astar_solve_no_blank:
  assumes "\<forall>row \<in> set (board s). length row = length (board s)" "no_blank (board s)"
  shows "astar_solve s = Inl TypeError \<or> astar_solve s = Inl KeyError"
proof -
  from manhattan_distance_shape[OF assms(1)] consider "manhattan_distance s = Inl KeyError"
    | h where "manhattan_distance s = Inr h" by blast
  then show ?thesis
  proof cases
    case 1 then show ?thesis by (simp add: astar_solve_def)
  next
    case 2
    have g: "get_successors (set_cost s h) = Inl TypeError"
      using assms by (intro get_successors_no_blank) simp_all
    have ng: "\<not> is_goal s" by (rule no_blank_not_goal[OF assms(2)])
    have pop: "heappop [(cost (set_cost s h), cost (set_cost s h), set_cost s h)] =
      Inr ((cost (set_cost s h), cost (set_cost s h), set_cost s h), [])"
      by (simp add: heappop_def)
    show ?thesis
      by (simp add: astar_solve_def 2 Let_def astar_loop.simps[of "[x]" for x] pop g ng)
  qed
qed

section \<open>Dispatch: rejected inputs\<close>

lemma str_nat_nonempty: "str_nat n \<noteq> []"
  by (subst str_nat.simps) simp

lemma str_int_nonempty: "str_int i \<noteq> []"
  by (simp add: str_int_def str_nat_nonempty)

section \<open>Depth-first search: order of expansion and depth limit\<close>

lemma move_init [simp]: "move (PuzzleState_init b p m d c) = m"
  by (simp add: PuzzleState_init_def)

lemma parent_init [simp]: "parent (PuzzleState_init b p m d c) = p"
  by (simp add: PuzzleState_init_def)

lemma cost_init [simp]: "cost (PuzzleState_init b p m d c) = c"
  by (simp add: PuzzleState_init_def)

lemma successors_loop_moves:
  "successors_loop s row col ms = Inr succs \<Longrightarrow>
   map move succs = map (\<lambda>(dr, dc, move_name). Some move_name) (filter (in_bounds s row col) ms)"
proof (induction ms arbitrary: succs)
  case Nil then show ?case by simp
next
  case (Cons m ms)
  obtain dr dc nm where m: "m = (dr, dc, nm)" by (cases m)
  show ?case
  proof (cases "in_bounds s row col m")
    case False
    with Cons.prems have "successors_loop s row col ms = Inr succs"
      by (auto simp: m in_bounds_def Let_def split: if_splits)
    with Cons.IH False show ?thesis by simp
  next
    case True
    with Cons.prems obtain nb rest where
      rest: "successors_loop s row col ms = Inr rest"
      and succs: "succs = PuzzleState_init nb (Some s) (Some nm) (depth s + 1) (cost s + 1) # rest"
      by (auto simp: m in_bounds_def Let_def split: sum.splits)
    from Cons.IH[OF rest] True show ?thesis by (simp add: succs m)
  qed
qed

lemma subseq_rev: "subseq xs ys \<Longrightarrow> subseq (rev xs) (rev ys)"
proof (induction rule: list_emb.induct)
  case (list_emb_Nil ys)
  then show ?case by simp
next
  case (list_emb_Cons xs ys y)
  then show ?case by (simp add: subseq_rev_drop_many)
next
  case (list_emb_Cons2 x y xs ys)
  then show ?case by (simp add: list_emb_append_mono)
qed

lemma append_unvisited_pushed:
  "\<exists>pushed. fst (append_unvisited xs q vis) = q @ pushed
      \<and> subseq pushed xs
      \<and> board ` set pushed = board ` set xs - vis
      \<and> (distinct (map board xs) \<longrightarrow> pushed = filter (\<lambda>s. board s \<notin> vis) xs)"
proof (induction xs q vis rule: append_unvisited.induct)
  case (1 frontier visited)
  then show ?case by simp
next
  case (2 successor rest frontier visited)
  show ?case
  proof (cases "board successor \<in> visited")
    case True
    with 2(2) obtain pushed where p: "fst (append_unvisited rest frontier visited) = frontier @ pushed"
      "subseq pushed rest" "board ` set pushed = board ` set rest - visited"
      "distinct (map board rest) \<longrightarrow> pushed = filter (\<lambda>s. board s \<notin> visited) rest"
      by blast
    show ?thesis
    proof (intro exI[of _ pushed] conjI)
      show "fst (append_unvisited (successor # rest) frontier visited) = frontier @ pushed"
        using True p by simp
      show "subseq pushed (successor # rest)" using p(2) by (rule list_emb_Cons)
      show "board ` set pushed = board ` set (successor # rest) - visited"
        using True p(3) by auto
      show "distinct (map board (successor # rest)) \<longrightarrow>
            pushed = filter (\<lambda>s. board s \<notin> visited) (successor # rest)"
        using True p(4) by simp
    qed
  next
    case False
    with 2(1) obtain pushed where p:
      "fst (append_unvisited rest (frontier @ [successor]) (insert (board successor) visited))
         = (frontier @ [successor]) @ pushed"
      "subseq pushed rest"
      "board ` set pushed = board ` set rest - insert (board successor) visited"
      "distinct (map board rest) \<longrightarrow>
         pushed = filter (\<lambda>s. board s \<notin> insert (board successor) visited) rest"
      by blast
    show ?thesis
    proof (intro exI[of _ "successor # pushed"] conjI)
      show "fst (append_unvisited (successor # rest) frontier visited) = frontier @ successor # pushed"
        using False p by simp
      show "subseq (successor # pushed) (successor # rest)" using p(2) by simp
      show "board ` set (successor # pushed) = board ` set (successor # rest) - visited"
        using False p(3) by auto
      show "distinct (map board (successor # rest)) \<longrightarrow>
            successor # pushed = filter (\<lambda>s. board s \<notin> visited) (successor # rest)"
      proof
        assume d: "distinct (map board (successor # rest))"
        then have "board successor \<notin> board ` set rest" by simp
        then have ne: "board x \<noteq> board successor" if "x \<in> set rest" for x
          using that by (metis imageI)
        have "filter (\<lambda>s. board s \<notin> insert (board successor) visited) rest
                   = filter (\<lambda>s. board s \<notin> visited) rest"
          by (rule filter_cong) (simp_all add: ne)
        with d p(4) False show "successor # pushed = filter (\<lambda>s. board s \<notin> visited) (successor # rest)"
          by simp
      qed
    qed
  qed
qed

lemma append_unvisited_visited:
  "snd (append_unvisited xs q vis) = vis \<union> board ` set xs"
  by (induction xs q vis rule: append_unvisited.induct) auto

lemma dfs_loop_failure_message:
  "dfs_loop stack visited n m depth_limit = Inr r \<Longrightarrow>
   map_of r ''success'' = Some (JBool False) \<Longrightarrow>
   map_of r ''message''
     = Some (JStr (''No solution found within depth limit of '' @ str_int depth_limit))"
proof (induction stack visited n m depth_limit rule: dfs_loop.induct)
  case (1 stack visited nodes_expanded max_stack_size depth_limit)
  show ?case
  proof (cases "stack = []")
    case True
    with 1(3) have "r = dfs_failure nodes_expanded max_stack_size depth_limit"
      by (simp add: dfs_loop.simps[of "[]"])
    then show ?thesis by (simp add: dfs_failure_def)
  next
    case ne: False
    show ?thesis
    proof (cases "is_goal (last stack)")
      case True
      with ne 1(3) have "map_of r ''success'' = Some (JBool True)"
        by (subst (asm) dfs_loop.simps) (auto simp: search_success_def)
      with 1(4) show ?thesis by simp
    next
      case ng: False
      show ?thesis
      proof (cases "depth (last stack) < depth_limit")
        case True
        with ne ng 1(3) obtain successors where
          s: "get_successors (last stack) = Inr successors"
          and r: "dfs_loop (fst (append_unvisited (rev successors) (butlast stack) visited))
                 (snd (append_unvisited (rev successors) (butlast stack) visited))
                 (nodes_expanded + 1) (max max_stack_size (int (length stack))) depth_limit = Inr r"
          by (subst (asm) dfs_loop.simps) (auto split: sum.splits)
        from 1(1)[OF ne ng True s r 1(4)] show ?thesis .
      next
        case False
        with ne ng 1(3) have
          r: "dfs_loop (butlast stack) visited
                 (nodes_expanded + 1) (max max_stack_size (int (length stack))) depth_limit = Inr r"
          by (subst (asm) dfs_loop.simps) auto
        from 1(2)[OF ne ng False r 1(4)] show ?thesis .
      qed
    qed
  qed
qed

lemma str_int_50: "str_int 50 = ''50''"
  by code_simp

text \<open>
  Claim C8.  A state popped by depth-first search whose depth has reached the depth limit
  is counted as expanded and is tested against the goal like any other, but when it is not
  the goal nothing is pushed, the visited set is unchanged and \<open>get_successors\<close> is not
  called: the search continues with the rest of the stack whatever \<open>get_successors\<close> would
  have returned.  Every failure result of the search carries the message that names the depth
  limit, which is 50 when the search is started by \<open>solve_puzzle\<close>.
\<close>

theorem dfs_depth_limit:
  "(stack \<noteq> [] \<and> \<not> is_goal (last stack) \<and> depth_limit \<le> depth (last stack) \<longrightarrow>
      dfs_loop stack visited n m depth_limit
        = dfs_loop (butlast stack) visited (n + 1) (max m (int (length stack))) depth_limit)
   \<and> (stack \<noteq> [] \<and> is_goal (last stack) \<longrightarrow>
      dfs_loop stack visited n m depth_limit
        = Inr (search_success ''DFS'' ''max_stack_size'' (reconstruct_path (last stack))
                 (n + 1) (max m (int (length stack)))))
   \<and> (dfs_loop stack visited n m depth_limit = Inr r
        \<and> map_of r ''success'' = Some (JBool False) \<longrightarrow>
      map_of r ''message''
        = Some (JStr (''No solution found within depth limit of '' @ str_int depth_limit)))
   \<and> (\<not> malformed b \<and> solve_puzzle b ''DFS'' = Inr r'
        \<and> map_of r' ''success'' = Some (JBool False) \<longrightarrow>
      map_of r' ''message'' = Some (JStr ''No solution found within depth limit of 50''))"
proof (intro conjI impI)
  assume "stack \<noteq> [] \<and> \<not> is_goal (last stack) \<and> depth_limit \<le> depth (last stack)"
  then show "dfs_loop stack visited n m depth_limit
        = dfs_loop (butlast stack) visited (n + 1) (max m (int (length stack))) depth_limit"
    by (subst dfs_loop.simps) simp
next
  assume "stack \<noteq> [] \<and> is_goal (last stack)"
  then show "dfs_loop stack visited n m depth_limit
        = Inr (search_success ''DFS'' ''max_stack_size'' (reconstruct_path (last stack))
                 (n + 1) (max m (int (length stack))))"
    by (subst dfs_loop.simps) simp
next
  assume "dfs_loop stack visited n m depth_limit = Inr r
        \<and> map_of r ''success'' = Some (JBool False)"
  then show "map_of r ''message''
        = Some (JStr (''No solution found within depth limit of '' @ str_int depth_limit))"
    using dfs_loop_failure_message by blast
next
  assume a: "\<not> malformed b \<and> solve_puzzle b ''DFS'' = Inr r'
        \<and> map_of r' ''success'' = Some (JBool False)"
  then have "solve_puzzle b ''DFS'' = dfs_solve (PuzzleState_init b None None 0 0) 50"
    unfolding solve_puzzle_def malformed_def Let_def by simp
  with a have "dfs_loop [PuzzleState_init b None None 0 0]
      {board (PuzzleState_init b None None 0 0)} 0 0 50 = Inr r'"
    by (simp add: dfs_solve_def)
  from dfs_loop_failure_message[OF this] a
  show "map_of r' ''message'' = Some (JStr ''No solution found within depth limit of 50'')"
    by (simp add: str_int_50)
qed

theorem dfs_depth_limit_witness:
  "\<not> is_goal (PuzzleState [[1, 2], [3, 3]] None None 0 0)
   \<and> (0::int) \<le> depth (PuzzleState [[1, 2], [3, 3]] None None 0 0)
   \<and> get_successors (PuzzleState [[1, 2], [3, 3]] None None 0 0) = Inl TypeError
   \<and> dfs_loop [PuzzleState [[1, 2], [3, 3]] None None 0 0] {[[1, 2], [3, 3]]} 0 0 0
       = Inr (dfs_failure 1 1 0)
   \<and> map_of (dfs_failure 1 1 0) ''message''
       = Some (JStr ''No solution found within depth limit of 0'')"
proof -
  let ?s = "PuzzleState [[1, 2], [3, 3]] None None 0 0"
  have ng: "\<not> is_goal ?s" by code_simp
  have gs: "get_successors ?s = Inl TypeError" by code_simp
  have "dfs_loop [?s] {[[1, 2], [3, 3]]} 0 0 0
      = dfs_loop (butlast [?s]) {[[1, 2], [3, 3]]} (0 + 1) (max 0 (int (length [?s]))) 0"
    using dfs_depth_limit[of "[?s]" 0 "{[[1, 2], [3, 3]]}" 0 0] ng by simp
  then have run: "dfs_loop [?s] {[[1, 2], [3, 3]]} 0 0 0 = Inr (dfs_failure 1 1 0)"
    by (simp add: dfs_loop.simps[of "[]"])
  have "str_int 0 = ''0''" by code_simp
  then have msg: "map_of (dfs_failure 1 1 0) ''message''
       = Some (JStr ''No solution found within depth limit of 0'')"
    by (simp add: dfs_failure_def)
  from ng gs run msg show ?thesis by simp
qed

section \<open>Boards that satisfy the permutation invariant\<close>

lemma same_cells_valid_board:
  assumes "same_cells a b" "valid_board n b"
  shows "valid_board n a"
proof -
  from assms have ml: "map length a = map length b" and ms: "mset (concat a) = mset (concat b)"
    by (simp_all add: same_cells_def)
  from ml have "length a = length b" by (metis length_map)
  moreover have "\<forall>row \<in> set a. length row = n"
  proof
    fix row assume "row \<in> set a"
    then have "length row \<in> set (map length a)" by simp
    with ml have "length row \<in> set (map length b)" by simp
    with assms(2) show "length row = n" by (auto simp: valid_board_def)
  qed
  ultimately show ?thesis using assms(2) ms by (simp add: valid_board_def)
qed

lemma valid_board_distinct: "valid_board n b \<Longrightarrow> distinct (concat b)"
proof -
  assume "valid_board n b"
  then have "mset (concat b) = mset (map int [0..<n * n])" by (simp add: valid_board_def)
  moreover have "distinct (map int [0..<n * n])" by (simp add: distinct_map)
  ultimately show ?thesis by (metis mset_eq_imp_distinct_iff)
qed

lemma valid_board_cells:
  "valid_board n b \<Longrightarrow> set (concat b) = int ` {0..<n * n}"
  by (metis valid_board_def set_mset_mset set_map set_upt)

lemma nth_nth_in_concat:
  "i < length b \<Longrightarrow> j < length (b ! i) \<Longrightarrow> b ! i ! j \<in> set (concat b)"
  by (metis nth_mem set_concat UN_I)

lemma in_concat_nth:
  "x \<in> set (concat b) \<Longrightarrow> \<exists>i j. i < length b \<and> j < length (b ! i) \<and> b ! i ! j = x"
  by (auto simp: in_set_conv_nth) blast

lemma distinct_concat_cells:
  assumes d: "distinct (concat b)"
    and i: "i < length b" "j < length (b ! i)"
    and i': "i' < length b" "j' < length (b ! i')"
    and eq: "b ! i ! j = b ! i' ! j'"
  shows "i = i' \<and> j = j'"
proof -
  from d have rows: "\<And>ys. ys \<in> set b \<Longrightarrow> distinct ys"
    and disj: "\<And>ys zs. ys \<in> set b \<Longrightarrow> zs \<in> set b \<Longrightarrow> ys \<noteq> zs \<Longrightarrow> set ys \<inter> set zs = {}"
    and dr: "distinct (removeAll [] b)"
    by (simp_all add: distinct_concat_iff)
  have mem: "b ! i \<in> set b" "b ! i' \<in> set b" using i i' by simp_all
  have x: "b ! i ! j \<in> set (b ! i)" "b ! i ! j \<in> set (b ! i')"
    using i(2) i'(2) eq nth_mem by metis+
  then have same_row: "b ! i = b ! i'" using disj[OF mem] by blast
  have ne: "b ! i \<noteq> []" using i by auto
  have "i = i'"
  proof (rule ccontr)
    assume "i \<noteq> i'"
    have "\<not> distinct (removeAll [] b)"
    proof -
      have "b ! i \<in> set (removeAll [] b)" using mem ne by simp
      have "filter (\<lambda>x. x \<noteq> []) b = removeAll [] b"
        by (induction b) auto
      moreover have "\<not> distinct (filter (\<lambda>x. x \<noteq> []) b)"
      proof
        assume df: "distinct (filter (\<lambda>x. x \<noteq> []) b)"
        have "count (mset (filter (\<lambda>x. x \<noteq> []) b)) (b ! i) \<le> 1"
          using df by (simp add: distinct_count_atmost_1)
        moreover have "count (mset (filter (\<lambda>x. x \<noteq> []) b)) (b ! i) = count (mset b) (b ! i)"
          using ne by (simp add: count_mset filter_filter conj_commute)
        moreover have "2 \<le> count (mset b) (b ! i)"
        proof -
          let ?lo = "min i i'" and ?hi = "max i i'"
          have lh: "?lo < ?hi" "?hi < length b" using \<open>i \<noteq> i'\<close> i i' by auto
          have vals: "b ! ?lo = b ! i" "b ! ?hi = b ! i"
            using same_row by (auto simp: min_def max_def)
          have b: "b = take ?hi b @ b ! ?hi # drop (Suc ?hi) b"
            using lh by (simp add: id_take_nth_drop)
          have "b ! ?lo \<in> set (take ?hi b)"
            using lh by (metis in_set_conv_nth length_take min.absorb4 nth_take)
          then have "1 \<le> count (mset (take ?hi b)) (b ! i)"
            using vals by (simp add: count_greater_eq_one_iff del: count_mset)
          moreover have "count (mset b) (b ! i)
              = count (mset (take ?hi b)) (b ! i) + count (mset (b ! ?hi # drop (Suc ?hi) b)) (b ! i)"
            by (subst b) simp
          moreover have "1 \<le> count (mset (b ! ?hi # drop (Suc ?hi) b)) (b ! i)"
            using vals by simp
          ultimately show ?thesis by linarith
        qed
        ultimately show False by linarith
      qed
      ultimately show ?thesis by simp
    qed
    with dr show False by simp
  qed
  moreover have "j = j'"
    using rows[OF mem(1)] i i' eq \<open>i = i'\<close> by (simp add: nth_eq_iff_index_eq)
  ultimately show ?thesis by simp
qed

lemma swap_cells_nth:
  assumes sw: "swap_cells b r c r' c' = Inr b'"
    and i: "i < length b" "j < length (b ! i)"
  shows "b' ! i ! j = (if (i, j) = (r', c') then b ! r ! c
                      else if (i, j) = (r, c) then b ! r' ! c' else b ! i ! j)"
proof -
  from sw have bnd: "r' < length b" "c' < length (b ! r')" "r < length b" "c < length (b ! r)"
    by (auto simp: swap_cells_def split: if_splits)
  with sw have b': "b' = (b[r := (b ! r)[c := b ! r' ! c']])
      [r' := ((b[r := (b ! r)[c := b ! r' ! c']]) ! r')[c' := b ! r ! c]]"
    by (simp add: swap_cells_def Let_def)
  show ?thesis
    unfolding b' using bnd i
    by (cases "r = r'"; cases "i = r"; cases "i = r'"; cases "j = c"; cases "j = c'")
       (simp_all add: nth_list_update)
qed

lemma swap_cells_shape:
  "swap_cells b r c r' c' = Inr b' \<Longrightarrow> map length b' = map length b"
  using swap_cells_same_cells[of b r c r' c' b'] by (simp add: same_cells_def)

lemma find_empty_cols_Some:
  "find_empty_cols row js = Inr (Some j) \<Longrightarrow> j \<in> set js \<and> j < length row \<and> row ! j = 0"
  by (induction js) (auto split: if_splits)

lemma find_empty_cols_None:
  "find_empty_cols row js = Inr None \<Longrightarrow> \<forall>j \<in> set js. row ! j \<noteq> 0"
  by (induction js) (auto split: if_splits)

lemma find_empty_cols_no_error:
  "\<forall>j \<in> set js. j < length row \<Longrightarrow> find_empty_cols row js \<noteq> Inl e"
  by (induction js) auto

lemma find_empty_rows_Some:
  "find_empty_rows b n is = Inr (Some (i, j)) \<Longrightarrow>
   i \<in> set is \<and> i < length b \<and> j < n \<and> j < length (b ! i) \<and> b ! i ! j = 0"
proof (induction "is")
  case Nil then show ?case by simp
next
  case (Cons k ks)
  show ?case
  proof (cases "find_empty_cols (b ! k) [0..<n]")
    case (Inl e)
    with Cons.prems show ?thesis by (simp split: if_splits)
  next
    case (Inr x)
    show ?thesis
    proof (cases x)
      case None
      with Inr Cons show ?thesis by (auto split: if_splits)
    next
      case (Some j')
      with Inr Cons.prems have "i = k" "j = j'" "k < length b" by (auto split: if_splits)
      with find_empty_cols_Some[of "b ! k" "[0..<n]" j'] Inr Some show ?thesis by auto
    qed
  qed
qed

lemma find_empty_rows_None:
  "find_empty_rows b n is = Inr None \<Longrightarrow> \<forall>i \<in> set is. \<forall>j < n. b ! i ! j \<noteq> 0"
proof (induction "is")
  case Nil then show ?case by simp
next
  case (Cons k ks)
  from Cons.prems have c: "find_empty_cols (b ! k) [0..<n] = Inr None"
    and r: "find_empty_rows b n ks = Inr None"
    by (auto split: if_splits sum.splits option.splits)
  from find_empty_cols_None[OF c] Cons.IH[OF r] show ?case by auto
qed

lemma find_empty_rows_no_error:
  "\<forall>i \<in> set is. i < length b \<and> n \<le> length (b ! i) \<Longrightarrow> find_empty_rows b n is \<noteq> Inl e"
proof (induction "is")
  case Nil then show ?case by simp
next
  case (Cons k ks)
  have "find_empty_cols (b ! k) [0..<n] \<noteq> Inl e'" for e'
    using Cons.prems by (intro find_empty_cols_no_error) auto
  with Cons show ?case by (auto split: sum.splits option.splits)
qed

lemma valid_board_row_length:
  "valid_board n b \<Longrightarrow> i < n \<Longrightarrow> length (b ! i) = n"
  by (simp add: valid_board_def)

lemma valid_board_has_blank:
  assumes "valid_board n b" "0 < n"
  shows "\<exists>i j. i < n \<and> j < n \<and> b ! i ! j = 0"
proof -
  have "(0::int) \<in> int ` {0..<n * n}" using assms(2) by (auto simp: image_iff)
  then have "0 \<in> set (concat b)" using valid_board_cells[OF assms(1)] by simp
  from in_concat_nth[OF this] obtain i j where "i < length b" "j < length (b ! i)" "b ! i ! j = 0"
    by blast
  with assms(1) show ?thesis by (auto simp: valid_board_def)
qed

lemma valid_board_blank_unique:
  assumes "valid_board n b" "i < n" "j < n" "i' < n" "j' < n"
    "b ! i ! j = 0" "b ! i' ! j' = 0"
  shows "i = i' \<and> j = j'"
proof -
  have len: "length b = n" "length (b ! i) = n" "length (b ! i') = n"
    using assms by (simp_all add: valid_board_def)
  show ?thesis
    by (rule distinct_concat_cells[OF valid_board_distinct[OF assms(1)]])
       (use len assms in simp_all)
qed

lemma find_empty_valid:
  assumes "valid_board n (board s)" "0 < n"
  shows "\<exists>row col. find_empty s = Inr (Some (row, col)) \<and> row < n \<and> col < n
           \<and> board s ! row ! col = 0"
proof -
  have len: "length (board s) = n" "size_of s = n"
    using assms by (simp_all add: valid_board_def size_of_def)
  have rows: "\<forall>i \<in> set [0..<n]. i < length (board s) \<and> n \<le> length (board s ! i)"
    using assms(1) by (simp add: valid_board_def)
  show ?thesis
  proof (cases "find_empty s")
    case (Inl e)
    with find_empty_rows_no_error[OF rows, of e] show ?thesis
      by (simp add: find_empty_def len)
  next
    case (Inr x)
    show ?thesis
    proof (cases x)
      case None
      with Inr have "find_empty_rows (board s) n [0..<n] = Inr None"
        by (simp add: find_empty_def len)
      from find_empty_rows_None[OF this] valid_board_has_blank[OF assms] show ?thesis by auto
    next
      case (Some p)
      obtain row col where p: "p = (row, col)" by (cases p)
      with Inr Some have "find_empty_rows (board s) n [0..<n] = Inr (Some (row, col))"
        by (simp add: find_empty_def len)
      from find_empty_rows_Some[OF this] Inr Some p show ?thesis by auto
    qed
  qed
qed

lemma successors_loop_elem:
  "successors_loop s row col ms = Inr succs \<Longrightarrow> t \<in> set succs \<Longrightarrow>
   \<exists>dr dc nm. (dr, dc, nm) \<in> set ms \<and> in_bounds s row col (dr, dc, nm)
      \<and> swap_cells (board s) row col (nat (int row + dr)) (nat (int col + dc)) = Inr (board t)
      \<and> t = PuzzleState_init (board t) (Some s) (Some nm) (depth s + 1) (cost s + 1)"
proof (induction ms arbitrary: succs)
  case Nil then show ?case by simp
next
  case (Cons m ms)
  obtain dr dc nm where m: "m = (dr, dc, nm)" by (cases m)
  show ?case
  proof (cases "in_bounds s row col m")
    case False
    with Cons.prems have "successors_loop s row col ms = Inr succs"
      by (auto simp: m in_bounds_def Let_def split: if_splits)
    from Cons.IH[OF this Cons.prems(2)] show ?thesis by auto
  next
    case True
    with Cons.prems(1) obtain nb rest where
      nb: "swap_cells (board s) row col (nat (int row + dr)) (nat (int col + dc)) = Inr nb"
      and rest: "successors_loop s row col ms = Inr rest"
      and succs: "succs = PuzzleState_init nb (Some s) (Some nm) (depth s + 1) (cost s + 1) # rest"
      by (auto simp: m in_bounds_def Let_def split: sum.splits)
    from Cons.prems(2) succs consider
      "t = PuzzleState_init nb (Some s) (Some nm) (depth s + 1) (cost s + 1)" | "t \<in> set rest"
      by auto
    then show ?thesis
    proof cases
      case 1
      then have "board t = nb" by simp
      with 1 nb True m show ?thesis by auto
    next
      case 2
      from Cons.IH[OF rest 2] show ?thesis by auto
    qed
  qed
qed

lemma successors_loop_complete:
  "successors_loop s row col ms = Inr succs \<Longrightarrow> (dr, dc, nm) \<in> set ms \<Longrightarrow>
   in_bounds s row col (dr, dc, nm) \<Longrightarrow>
   \<exists>t \<in> set succs.
      swap_cells (board s) row col (nat (int row + dr)) (nat (int col + dc)) = Inr (board t)"
proof (induction ms arbitrary: succs)
  case Nil then show ?case by simp
next
  case (Cons m ms)
  obtain dr' dc' nm' where m: "m = (dr', dc', nm')" by (cases m)
  show ?case
  proof (cases "in_bounds s row col m")
    case False
    with Cons.prems have r: "successors_loop s row col ms = Inr succs"
      by (auto simp: m in_bounds_def Let_def split: if_splits)
    from False Cons.prems have "(dr, dc, nm) \<in> set ms" by auto
    from Cons.IH[OF r this Cons.prems(3)] show ?thesis .
  next
    case True
    with Cons.prems(1) obtain nb rest where
      nb: "swap_cells (board s) row col (nat (int row + dr')) (nat (int col + dc')) = Inr nb"
      and rest: "successors_loop s row col ms = Inr rest"
      and succs: "succs = PuzzleState_init nb (Some s) (Some nm') (depth s + 1) (cost s + 1) # rest"
      by (auto simp: m in_bounds_def Let_def split: sum.splits)
    show ?thesis
    proof (cases "(dr, dc, nm) = m")
      case True
      with nb succs m show ?thesis by auto
    next
      case False
      with Cons.prems have "(dr, dc, nm) \<in> set ms" by auto
      from Cons.IH[OF rest this Cons.prems(3)] succs show ?thesis by auto
    qed
  qed
qed

lemma successors_loop_no_error:
  "(\<And>dr dc nm. (dr, dc, nm) \<in> set ms \<Longrightarrow> in_bounds s row col (dr, dc, nm) \<Longrightarrow>
      \<exists>nb. swap_cells (board s) row col (nat (int row + dr)) (nat (int col + dc)) = Inr nb) \<Longrightarrow>
   \<exists>succs. successors_loop s row col ms = Inr succs"
proof (induction ms)
  case Nil then show ?case by simp
next
  case (Cons m ms)
  obtain dr dc nm where m: "m = (dr, dc, nm)" by (cases m)
  have "\<exists>succs. successors_loop s row col ms = Inr succs"
    by (rule Cons.IH) (use Cons.prems in auto)
  then obtain rest where rest: "successors_loop s row col ms = Inr rest" by blast
  show ?case
  proof (cases "in_bounds s row col m")
    case False
    with rest show ?thesis by (auto simp: m in_bounds_def Let_def)
  next
    case True
    with Cons.prems[of dr dc nm] m obtain nb where
      "swap_cells (board s) row col (nat (int row + dr)) (nat (int col + dc)) = Inr nb" by auto
    with True rest show ?thesis by (auto simp: m in_bounds_def Let_def)
  qed
qed

lemma swap_cells_in_range:
  "r < length b \<Longrightarrow> c < length (b ! r) \<Longrightarrow> r' < length b \<Longrightarrow> c' < length (b ! r') \<Longrightarrow>
   \<exists>nb. swap_cells b r c r' c' = Inr nb"
  by (simp add: swap_cells_def Let_def)

lemma get_successors_valid:
  assumes "valid_board n (board s)" "0 < n"
  shows "\<exists>succs. get_successors s = Inr succs"
proof -
  from find_empty_valid[OF assms] obtain row col where
    fe: "find_empty s = Inr (Some (row, col))" and rc: "row < n" "col < n" by blast
  have len: "length (board s) = n" "size_of s = n"
    using assms by (simp_all add: valid_board_def size_of_def)
  have "\<exists>nb. swap_cells (board s) row col (nat (int row + dr)) (nat (int col + dc)) = Inr nb"
    if "in_bounds s row col (dr, dc, nm)" for dr dc nm
  proof -
    from that have r': "nat (int row + dr) < n" "nat (int col + dc) < n"
      by (auto simp: in_bounds_def len)
    show ?thesis
      using rc r' valid_board_row_length[OF assms(1)] len
      by (intro swap_cells_in_range) simp_all
  qed
  then have "\<exists>succs. successors_loop s row col moves = Inr succs"
    by (intro successors_loop_no_error) blast
  with fe show ?thesis by (simp add: get_successors_def)
qed

lemma get_successors_elem:
  assumes "get_successors s = Inr succs" "t \<in> set succs"
  shows "\<exists>row col dr dc nm. find_empty s = Inr (Some (row, col))
      \<and> (dr, dc, nm) \<in> set moves \<and> in_bounds s row col (dr, dc, nm)
      \<and> swap_cells (board s) row col (nat (int row + dr)) (nat (int col + dc)) = Inr (board t)
      \<and> t = PuzzleState_init (board t) (Some s) (Some nm) (depth s + 1) (cost s + 1)"
proof -
  from assms(1) obtain row col where fe: "find_empty s = Inr (Some (row, col))"
    and sl: "successors_loop s row col moves = Inr succs"
    by (auto simp: get_successors_def split: sum.splits option.splits)
  from successors_loop_elem[OF sl assms(2)] fe show ?thesis by blast
qed

lemma find_empty_Some:
  "find_empty s = Inr (Some (row, col)) \<Longrightarrow>
   row < length (board s) \<and> col < length (board s ! row) \<and> col < size_of s
   \<and> board s ! row ! col = 0"
  using find_empty_rows_Some[of "board s" "size_of s" "[0..<size_of s]" row col]
  by (simp add: find_empty_def)

lemma moves_adjacent:
  assumes "(dr, dc, nm) \<in> set moves" "0 \<le> int row + dr" "0 \<le> int col + dc"
  shows "adjacent row col (nat (int row + dr)) (nat (int col + dc))"
  using assms by (auto simp: moves_def adjacent_def)

lemma get_successors_slide:
  assumes "get_successors s = Inr succs" "t \<in> set succs"
  shows "slide (board s) (board t)"
proof -
  from get_successors_elem[OF assms] obtain row col dr dc nm where
    fe: "find_empty s = Inr (Some (row, col))"
    and m: "(dr, dc, nm) \<in> set moves" and ib: "in_bounds s row col (dr, dc, nm)"
    and sw: "swap_cells (board s) row col (nat (int row + dr)) (nat (int col + dc)) = Inr (board t)"
    by blast
  from ib have "0 \<le> int row + dr" "0 \<le> int col + dc" by (simp_all add: in_bounds_def)
  from moves_adjacent[OF m this] find_empty_Some[OF fe] sw show ?thesis
    unfolding slide_def by blast
qed

lemma adjacent_move:
  assumes "adjacent r c r' c'"
  shows "\<exists>dr dc nm. (dr, dc, nm) \<in> set moves \<and> r' = nat (int r + dr) \<and> c' = nat (int c + dc)
           \<and> 0 \<le> int r + dr \<and> 0 \<le> int c + dc"
proof -
  from assms consider "r' = r" "c' = c + 1" | "r' = r" "c = c' + 1"
    | "c' = c" "r' = r + 1" | "c' = c" "r = r' + 1"
    by (auto simp: adjacent_def)
  then show ?thesis
  proof cases
    case 1 then show ?thesis by (intro exI[of _ 0] exI[of _ 1] exI[of _ "''RIGHT''"]) (simp add: moves_def)
  next
    case 2 then show ?thesis by (intro exI[of _ 0] exI[of _ "-1"] exI[of _ "''LEFT''"]) (simp add: moves_def)
  next
    case 3 then show ?thesis by (intro exI[of _ 1] exI[of _ 0] exI[of _ "''DOWN''"]) (simp add: moves_def)
  next
    case 4 then show ?thesis by (intro exI[of _ "-1"] exI[of _ 0] exI[of _ "''UP''"]) (simp add: moves_def)
  qed
qed

lemma get_successors_complete:
  assumes v: "valid_board n (board s)" and n: "0 < n"
    and sl: "slide (board s) b'" and gs: "get_successors s = Inr succs"
  shows "b' \<in> board ` set succs"
proof -
  have len: "length (board s) = n" "size_of s = n"
    using v by (simp_all add: valid_board_def size_of_def)
  from sl obtain r c r' c' where rc: "r < length (board s)" "c < length (board s ! r)"
    and z: "board s ! r ! c = 0" and adj: "adjacent r c r' c'"
    and sw: "swap_cells (board s) r c r' c' = Inr b'"
    unfolding slide_def by blast
  from sw have r'c': "r' < length (board s)" "c' < length (board s ! r')"
    by (auto simp: swap_cells_def split: if_splits)
  from find_empty_valid[OF v n] obtain row col where
    fe: "find_empty s = Inr (Some (row, col))" and rowcol: "row < n" "col < n"
    and z': "board s ! row ! col = 0" by blast
  have rcn: "r < n" "c < n" "r' < n" "c' < n"
    using rc r'c' len valid_board_row_length[OF v] by auto
  from valid_board_blank_unique[OF v rowcol rcn(1,2) z' z] have eq: "row = r" "col = c" by simp_all
  from adjacent_move[OF adj] obtain dr dc nm where
    m: "(dr, dc, nm) \<in> set moves" and r': "r' = nat (int r + dr)" and c': "c' = nat (int c + dc)"
    and nn: "0 \<le> int r + dr" "0 \<le> int c + dc" by blast
  have "int r + dr < int n" "int c + dc < int n"
    using nn rcn(3,4) r' c' by linarith+
  then have ib: "in_bounds s row col (dr, dc, nm)"
    using nn by (simp add: in_bounds_def eq len)
  from gs fe have "successors_loop s row col moves = Inr succs"
    by (simp add: get_successors_def)
  from successors_loop_complete[OF this m ib] obtain t where
    "t \<in> set succs" "swap_cells (board s) row col (nat (int row + dr)) (nat (int col + dc)) = Inr (board t)"
    by blast
  with sw r' c' eq show ?thesis by auto
qed

lemma slide_same_cells: "slide a b \<Longrightarrow> same_cells b a"
  unfolding slide_def using swap_cells_same_cells by blast

lemma slide_valid_board: "slide a b \<Longrightarrow> valid_board n a \<Longrightarrow> valid_board n b"
  using slide_same_cells same_cells_valid_board by blast

section \<open>The loops run through the reachable configurations\<close>

lemma success_not_failure [simp]:
  "map_of (search_failure alg key n m) ''success'' \<noteq> Some (JBool True)"
  "map_of (dfs_failure n m l) ''success'' \<noteq> Some (JBool True)"
  by (simp_all add: search_failure_def dfs_failure_def)

lemma bfs_loop_success:
  "bfs_loop queue visited n m = Inr r \<Longrightarrow> map_of r ''success'' = Some (JBool True) \<Longrightarrow>
   bfs_reach s0 queue visited \<Longrightarrow>
   \<exists>current rest visited' n' m'. bfs_reach s0 (current # rest) visited' \<and> is_goal current
      \<and> r = search_success ''BFS'' ''max_queue_size'' (reconstruct_path current) n' m'"
proof (induction queue visited n m rule: bfs_loop.induct)
  case (1 visited nodes_expanded max_queue_size)
  then show ?case by auto
next
  case (2 current queue visited nodes_expanded max_queue_size)
  show ?case
  proof (cases "is_goal current")
    case True
    with 2(2) have "r = search_success ''BFS'' ''max_queue_size'' (reconstruct_path current)
        (nodes_expanded + 1) (max max_queue_size (int (length (current # queue))))"
      by simp
    with True 2(4) show ?thesis by blast
  next
    case False
    with 2(2) obtain successors where s: "get_successors current = Inr successors"
      and r: "bfs_loop (fst (append_unvisited successors queue visited))
                (snd (append_unvisited successors queue visited))
                (nodes_expanded + 1) (max max_queue_size (int (length (current # queue)))) = Inr r"
      by (auto split: sum.splits)
    have "bfs_reach s0 (fst (append_unvisited successors queue visited))
            (snd (append_unvisited successors queue visited))"
      using 2(4) False s by (rule bfs_expand)
    from 2(1)[OF False s r 2(3) this] show ?thesis .
  qed
qed

lemma dfs_loop_success:
  "dfs_loop stack visited n m depth_limit = Inr r \<Longrightarrow>
   map_of r ''success'' = Some (JBool True) \<Longrightarrow>
   dfs_reach s0 depth_limit stack visited \<Longrightarrow>
   \<exists>stack' visited' n' m'. dfs_reach s0 depth_limit stack' visited' \<and> stack' \<noteq> []
      \<and> is_goal (last stack')
      \<and> r = search_success ''DFS'' ''max_stack_size'' (reconstruct_path (last stack')) n' m'"
proof (induction stack visited n m depth_limit rule: dfs_loop.induct)
  case (1 stack visited nodes_expanded max_stack_size depth_limit)
  show ?case
  proof (cases "stack = []")
    case True
    with 1(3,4) show ?thesis by (auto simp: dfs_loop.simps[of "[]"])
  next
    case ne: False
    show ?thesis
    proof (cases "is_goal (last stack)")
      case True
      with ne 1(3) have "r = search_success ''DFS'' ''max_stack_size''
          (reconstruct_path (last stack)) (nodes_expanded + 1)
          (max max_stack_size (int (length stack)))"
        by (subst (asm) dfs_loop.simps) simp
      with True ne 1(5) show ?thesis by blast
    next
      case ng: False
      show ?thesis
      proof (cases "depth (last stack) < depth_limit")
        case True
        with ne ng 1(3) obtain successors where
          s: "get_successors (last stack) = Inr successors"
          and r: "dfs_loop (fst (append_unvisited (rev successors) (butlast stack) visited))
                 (snd (append_unvisited (rev successors) (butlast stack) visited))
                 (nodes_expanded + 1) (max max_stack_size (int (length stack))) depth_limit = Inr r"
          by (subst (asm) dfs_loop.simps) (auto split: sum.splits)
        have "dfs_reach s0 depth_limit
            (fst (append_unvisited (rev successors) (butlast stack) visited))
            (snd (append_unvisited (rev successors) (butlast stack) visited))"
          using 1(5) ne ng True s by (rule dfs_expand)
        from 1(1)[OF ne ng True s r 1(4) this] show ?thesis .
      next
        case False
        with ne ng 1(3) have
          r: "dfs_loop (butlast stack) visited
                 (nodes_expanded + 1) (max max_stack_size (int (length stack))) depth_limit = Inr r"
          by (subst (asm) dfs_loop.simps) auto
        have "dfs_reach s0 depth_limit (butlast stack) visited"
          using 1(5) ne ng False by (rule dfs_cutoff)
        from 1(2)[OF ne ng False r 1(4) this] show ?thesis .
      qed
    qed
  qed
qed

lemma astar_loop_success:
  "astar_loop priority_queue visited n m = Inr r \<Longrightarrow>
   map_of r ''success'' = Some (JBool True) \<Longrightarrow>
   astar_reach s0 priority_queue visited \<Longrightarrow>
   \<exists>pq visited' item rest n' m'. astar_reach s0 pq visited' \<and> heappop pq = Inr (item, rest)
      \<and> is_goal (snd (snd item))
      \<and> r = search_success ''A*'' ''max_queue_size'' (reconstruct_path (snd (snd item))) n' m'"
proof (induction priority_queue visited n m rule: astar_loop.induct)
  case (1 priority_queue visited nodes_expanded max_queue_size)
  show ?case
  proof (cases "priority_queue = []")
    case True
    with 1(2,3) show ?thesis by (auto simp: astar_loop.simps[of "[]"])
  next
    case ne: False
    with 1(2) obtain popped where pop: "heappop priority_queue = Inr popped"
      by (subst (asm) astar_loop.simps) (auto split: sum.splits)
    obtain item rest where popped: "popped = (item, rest)" by (cases popped)
    show ?thesis
    proof (cases "is_goal (snd (snd item))")
      case True
      with ne pop popped 1(2) have "r = search_success ''A*'' ''max_queue_size''
          (reconstruct_path (snd (snd item))) (nodes_expanded + 1)
          (max max_queue_size (int (length priority_queue)))"
        by (subst (asm) astar_loop.simps) simp
      with True pop popped 1(4) show ?thesis by blast
    next
      case ng: False
      with ne pop popped 1(2) obtain successors pushed where
        s: "get_successors (snd (snd item)) = Inr successors"
        and p: "astar_push successors rest visited = Inr pushed"
        and r: "astar_loop (fst pushed) (snd pushed) (nodes_expanded + 1)
                 (max max_queue_size (int (length priority_queue))) = Inr r"
        by (subst (asm) astar_loop.simps) (auto split: sum.splits)
      have "astar_reach s0 (fst pushed) (snd pushed)"
        using 1(4) pop[unfolded popped] ng s p by (intro astar_expand[where visited' = "snd pushed"]) auto
      from 1(1)[OF ne pop _ _ _ r 1(3) this] ng s p popped show ?thesis by simp
    qed
  qed
qed

section \<open>Invariants of the frontier\<close>

lemma bfs_reach_invariant:
  assumes "bfs_reach s0 queue visited" and "P s0"
    and step: "\<And>c succs t. P c \<Longrightarrow> get_successors c = Inr succs \<Longrightarrow> t \<in> set succs \<Longrightarrow> P t"
  shows "\<forall>t \<in> set queue. P t"
  using assms(1)
proof (induction rule: bfs_reach.induct)
  case bfs_start
  then show ?case using assms(2) by simp
next
  case (bfs_expand current queue visited successors)
  show ?case
  proof
    fix t assume "t \<in> set (fst (append_unvisited successors queue visited))"
    with append_unvisited_frontier[of successors queue visited]
    have "t \<in> set queue \<or> t \<in> set successors" by blast
    then show "P t" using bfs_expand step[of current successors t] by auto
  qed
qed

lemma dfs_reach_invariant:
  assumes "dfs_reach s0 depth_limit stack visited" and "P s0"
    and step: "\<And>c succs t. P c \<Longrightarrow> get_successors c = Inr succs \<Longrightarrow> t \<in> set succs \<Longrightarrow> P t"
  shows "\<forall>t \<in> set stack. P t"
  using assms(1)
proof (induction rule: dfs_reach.induct)
  case dfs_start
  then show ?case using assms(2) by simp
next
  case (dfs_expand stack visited successors)
  show ?case
  proof
    fix t assume "t \<in> set (fst (append_unvisited (rev successors) (butlast stack) visited))"
    with append_unvisited_frontier[of "rev successors" "butlast stack" visited]
      set_butlast_subset[of stack]
    have "t \<in> set stack \<or> t \<in> set successors" by auto
    moreover have "P (last stack)" using dfs_expand by simp
    ultimately show "P t" using dfs_expand step[of "last stack" successors t] by auto
  qed
next
  case (dfs_cutoff stack visited)
  then show ?case using set_butlast_subset[of stack] by auto
qed

lemma astar_push_items:
  "astar_push succs pq vis = Inr (pq', vis') \<Longrightarrow> item \<in> set pq' \<Longrightarrow>
   item \<in> set pq \<or> (\<exists>t \<in> set succs. \<exists>h. manhattan_distance t = Inr h
        \<and> item = (depth t + h, h, set_cost t (depth t + h)))"
proof (induction succs arbitrary: pq vis)
  case Nil then show ?case by simp
next
  case (Cons s succs)
  show ?case
  proof (cases "board s \<in> vis")
    case True
    with Cons.prems have "astar_push succs pq vis = Inr (pq', vis')" by simp
    from Cons.IH[OF this Cons.prems(2)] show ?thesis by auto
  next
    case False
    with Cons.prems obtain h where h: "manhattan_distance s = Inr h"
      and r: "astar_push succs (heappush pq (depth s + h, h, set_cost s (depth s + h)))
                (insert (board s) vis) = Inr (pq', vis')"
      by (auto split: sum.splits)
    from Cons.IH[OF r Cons.prems(2)] heappush_set[of pq "(depth s + h, h, set_cost s (depth s + h))"] h
    show ?thesis by auto
  qed
qed

lemma astar_reach_invariant:
  assumes "astar_reach s0 priority_queue visited" and "P s0"
    and step: "\<And>c succs t. P c \<Longrightarrow> get_successors c = Inr succs \<Longrightarrow> t \<in> set succs \<Longrightarrow> P t"
    and upd: "\<And>t c. P t \<Longrightarrow> P (set_cost t c)"
  shows "\<forall>item \<in> set priority_queue. P (snd (snd item))"
  using assms(1)
proof (induction rule: astar_reach.induct)
  case (astar_start h)
  then show ?case using assms(2) upd by simp
next
  case (astar_expand priority_queue visited item rest successors priority_queue' visited')
  from heappop_set[OF astar_expand(2)] astar_expand(6)
  have cur: "P (snd (snd item))" and rest: "\<forall>i \<in> set rest. P (snd (snd i))" by auto
  show ?case
  proof
    fix i assume "i \<in> set priority_queue'"
    from astar_push_items[OF astar_expand(5) this]
    show "P (snd (snd i))"
    proof
      assume "i \<in> set rest" with rest show ?thesis by simp
    next
      assume "\<exists>t \<in> set successors. \<exists>h. manhattan_distance t = Inr h
          \<and> i = (depth t + h, h, set_cost t (depth t + h))"
      then obtain t h where "t \<in> set successors" "i = (depth t + h, h, set_cost t (depth t + h))"
        by blast
      with step[OF cur astar_expand(4)] upd show ?thesis by simp
    qed
  qed
qed

lemma same_cells_sym: "same_cells a b \<Longrightarrow> same_cells b a"
  by (simp add: same_cells_def)

lemma same_cells_trans: "same_cells a b \<Longrightarrow> same_cells b c \<Longrightarrow> same_cells a c"
  by (simp add: same_cells_def)

lemma bfs_reach_visited:
  assumes "bfs_reach s0 queue visited"
  shows "\<forall>b \<in> visited. same_cells b (board s0)"
  using assms
proof (induction rule: bfs_reach.induct)
  case bfs_start
  then show ?case by (simp add: same_cells_refl)
next
  case (bfs_expand current queue visited successors)
  have "\<forall>t \<in> set (current # queue). same_cells (board t) (board s0)"
    by (rule bfs_reach_invariant[OF bfs_expand(1)])
       (auto simp: same_cells_refl intro: same_cells_trans dest: get_successors_same_cells)
  then have c: "same_cells (board current) (board s0)" by simp
  show ?case
  proof
    fix b assume "b \<in> snd (append_unvisited successors queue visited)"
    with append_unvisited_visited_upper[of successors queue visited]
    have "b \<in> visited \<or> b \<in> board ` set successors" by blast
    then show "same_cells b (board s0)"
      using bfs_expand(4) get_successors_same_cells[OF bfs_expand(3)] c
      by (auto intro: same_cells_trans)
  qed
qed

lemma dfs_reach_visited:
  assumes "dfs_reach s0 depth_limit stack visited"
  shows "\<forall>b \<in> visited. same_cells b (board s0)"
  using assms
proof (induction rule: dfs_reach.induct)
  case dfs_start
  then show ?case by (simp add: same_cells_refl)
next
  case (dfs_expand stack visited successors)
  have "\<forall>t \<in> set stack. same_cells (board t) (board s0)"
    by (rule dfs_reach_invariant[OF dfs_expand(1)])
       (auto simp: same_cells_refl intro: same_cells_trans dest: get_successors_same_cells)
  then have c: "same_cells (board (last stack)) (board s0)" using dfs_expand(2) by simp
  show ?case
  proof
    fix b assume "b \<in> snd (append_unvisited (rev successors) (butlast stack) visited)"
    with append_unvisited_visited_upper[of "rev successors" "butlast stack" visited]
    have "b \<in> visited \<or> b \<in> board ` set successors" by auto
    then show "same_cells b (board s0)"
      using dfs_expand(6) get_successors_same_cells[OF dfs_expand(5)] c
      by (auto intro: same_cells_trans)
  qed
next
  case (dfs_cutoff stack visited)
  then show ?case by simp
qed

lemma astar_reach_visited:
  assumes "astar_reach s0 priority_queue visited"
  shows "\<forall>b \<in> visited. same_cells b (board s0)"
  using assms
proof (induction rule: astar_reach.induct)
  case (astar_start h)
  then show ?case by (simp add: same_cells_refl)
next
  case (astar_expand priority_queue visited item rest successors priority_queue' visited')
  have "\<forall>i \<in> set priority_queue. same_cells (board (snd (snd i))) (board s0)"
    by (rule astar_reach_invariant[OF astar_expand(1)])
       (auto simp: same_cells_refl intro: same_cells_trans dest: get_successors_same_cells)
  with heappop_set[OF astar_expand(2)]
  have c: "same_cells (board (snd (snd item))) (board s0)" by simp
  show ?case
  proof
    fix b assume "b \<in> visited'"
    with astar_push_visited_upper[OF astar_expand(5)]
    have "b \<in> visited \<or> b \<in> board ` set successors" by blast
    then show "same_cells b (board s0)"
      using astar_expand(6) get_successors_same_cells[OF astar_expand(4)] c
      by (auto intro: same_cells_trans)
  qed
qed

lemma depth_successor:
  "get_successors s = Inr succs \<Longrightarrow> t \<in> set succs \<Longrightarrow> depth t = depth s + 1"
  using get_successors_elem[of s succs t] by (metis depth_init)

lemma parent_successor:
  "get_successors s = Inr succs \<Longrightarrow> t \<in> set succs \<Longrightarrow> parent t = Some s"
  using get_successors_elem[of s succs t] by (metis parent_init)

lemma valid_successor:
  "valid_board n (board s) \<Longrightarrow> get_successors s = Inr succs \<Longrightarrow> t \<in> set succs \<Longrightarrow>
   valid_board n (board t)"
  using get_successors_same_cells same_cells_valid_board by blast

text \<open>
  Claim C9.  On a state whose board is a permutation of \<open>0 .. n\<^sup>2 - 1\<close> (\<open>n\<close> is 2 or 3)
  the successor function raises nothing, and every state it returns has a board that is a
  permutation of the same size and a depth one more than its parent's.  Hence every state in
  the frontier of any of the three searches started on such a state, and every board in the
  visited set, satisfies the permutation invariant.
\<close>

theorem successors_keep_permutation:
  assumes "n = 2 \<or> n = 3" and "valid_board n (board s)"
  shows "(\<exists>succs. get_successors s = Inr succs)
    \<and> (\<forall>succs t. get_successors s = Inr succs \<and> t \<in> set succs \<longrightarrow>
          valid_board n (board t) \<and> depth t = depth s + 1)
    \<and> (\<forall>queue visited. bfs_reach s queue visited \<longrightarrow>
          (\<forall>t \<in> set queue. valid_board n (board t)) \<and> (\<forall>b \<in> visited. valid_board n b))
    \<and> (\<forall>depth_limit stack visited. dfs_reach s depth_limit stack visited \<longrightarrow>
          (\<forall>t \<in> set stack. valid_board n (board t)) \<and> (\<forall>b \<in> visited. valid_board n b))
    \<and> (\<forall>priority_queue visited. astar_reach s priority_queue visited \<longrightarrow>
          (\<forall>item \<in> set priority_queue. valid_board n (board (snd (snd item))))
          \<and> (\<forall>b \<in> visited. valid_board n b))"
proof (intro conjI allI impI)
  from assms(1) have "0 < n" by auto
  then show "\<exists>succs. get_successors s = Inr succs"
    using assms(2) by (intro get_successors_valid)
next
  fix succs t assume "get_successors s = Inr succs \<and> t \<in> set succs"
  then show "valid_board n (board t)" "depth t = depth s + 1"
    using valid_successor[OF assms(2)] depth_successor by blast+
next
  fix queue visited assume r: "bfs_reach s queue visited"
  show "\<forall>t \<in> set queue. valid_board n (board t)"
    by (rule bfs_reach_invariant[OF r]) (use assms(2) valid_successor in blast)+
  show "\<forall>b \<in> visited. valid_board n b"
    using bfs_reach_visited[OF r] same_cells_valid_board[OF _ assms(2)] by blast
next
  fix depth_limit stack visited assume r: "dfs_reach s depth_limit stack visited"
  show "\<forall>t \<in> set stack. valid_board n (board t)"
    by (rule dfs_reach_invariant[OF r]) (use assms(2) valid_successor in blast)+
  show "\<forall>b \<in> visited. valid_board n b"
    using dfs_reach_visited[OF r] same_cells_valid_board[OF _ assms(2)] by blast
next
  fix priority_queue visited assume r: "astar_reach s priority_queue visited"
  show "\<forall>item \<in> set priority_queue. valid_board n (board (snd (snd item)))"
    by (rule astar_reach_invariant[OF r]) (use assms(2) valid_successor in \<open>(blast | simp)\<close>)+
  show "\<forall>b \<in> visited. valid_board n b"
    using astar_reach_visited[OF r] same_cells_valid_board[OF _ assms(2)] by blast
qed

lemma valid_board_example: "valid_board 2 [[1, 2], [0, 3]]"
  by (simp add: valid_board_def upt_rec)

theorem successors_keep_permutation_witness:
  "((2::nat) = 2 \<or> (2::nat) = 3)
   \<and> valid_board 2 (board (PuzzleState [[1, 2], [0, 3]] None None 0 0))
   \<and> get_successors (PuzzleState [[1, 2], [0, 3]] None None 0 0)
       = Inr [PuzzleState [[0, 2], [1, 3]] (Some (PuzzleState [[1, 2], [0, 3]] None None 0 0))
                (Some ''UP'') 1 1,
              PuzzleState [[1, 2], [3, 0]] (Some (PuzzleState [[1, 2], [0, 3]] None None 0 0))
                (Some ''RIGHT'') 1 1]
   \<and> valid_board 2 [[0, 2], [1, 3]] \<and> valid_board 2 [[1, 2], [3, 0]]"
proof -
  let ?s = "PuzzleState [[1, 2], [0, 3]] None None 0 0"
  have v: "valid_board 2 (board ?s)" using valid_board_example by simp
  have gs: "get_successors ?s
       = Inr [PuzzleState [[0, 2], [1, 3]] (Some ?s) (Some ''UP'') 1 1,
              PuzzleState [[1, 2], [3, 0]] (Some ?s) (Some ''RIGHT'') 1 1]"
    by code_simp
  from successors_keep_permutation[of 2 ?s] v gs
  have "valid_board 2 [[0, 2], [1, 3]] \<and> valid_board 2 [[1, 2], [3, 0]]"
    by fastforce
  with v gs show ?thesis by simp
qed

section \<open>Solution paths\<close>

lemma parent_chain_None: "parent s = None \<Longrightarrow> parent_chain s = [board s]"
  by (cases s) (simp add: to_list_def)

lemma parent_chain_Some: "parent s = Some p \<Longrightarrow> parent_chain s = board s # parent_chain p"
  by (cases s) (simp add: to_list_def)

lemma parent_chain_set_cost [simp]: "parent_chain (set_cost s c) = parent_chain s"
  by (cases s; cases "parent s") (simp_all add: set_cost_def to_list_def)

lemma reconstruct_path_set_cost [simp]: "reconstruct_path (set_cost s c) = reconstruct_path s"
  by (simp add: reconstruct_path_def)

lemma parent_chain_hd: "parent_chain s \<noteq> [] \<and> hd (parent_chain s) = board s"
  by (cases s; cases "parent s") (simp_all add: to_list_def)

lemma reconstruct_path_last:
  "reconstruct_path s \<noteq> [] \<and> last (reconstruct_path s) = board s"
  using parent_chain_hd[of s] by (simp add: reconstruct_path_def last_rev)

lemma reconstruct_path_None: "parent s = None \<Longrightarrow> reconstruct_path s = [board s]"
  by (simp add: reconstruct_path_def parent_chain_None)

lemma reconstruct_path_Some:
  "parent s = Some p \<Longrightarrow> reconstruct_path s = reconstruct_path p @ [board s]"
  by (simp add: reconstruct_path_def parent_chain_Some)

lemma slide_path_snoc:
  "slide_path (xs @ [b]) \<longleftrightarrow> slide_path xs \<and> (xs \<noteq> [] \<longrightarrow> slide (last xs) b)"
  by (induction xs rule: slide_path.induct) auto

lemma slide_differs:
  assumes "slide a b" "valid_board n a"
  shows "a \<noteq> b"
proof -
  from assms(1) obtain r c r' c' where rc: "r < length a" "c < length (a ! r)"
    and z: "a ! r ! c = 0" and adj: "adjacent r c r' c'"
    and sw: "swap_cells a r c r' c' = Inr b"
    unfolding slide_def by blast
  from sw have r'c': "r' < length a" "c' < length (a ! r')"
    by (auto simp: swap_cells_def split: if_splits)
  have ne: "(r, c) \<noteq> (r', c')" using adj by (auto simp: adjacent_def)
  from swap_cells_nth[OF sw rc] ne have "b ! r ! c = a ! r' ! c'" by auto
  moreover have "a ! r' ! c' \<noteq> 0"
  proof
    assume "a ! r' ! c' = 0"
    with distinct_concat_cells[OF valid_board_distinct[OF assms(2)] rc r'c'] z ne
    show False by simp
  qed
  ultimately show ?thesis using z by auto
qed

lemma slide_path_differs:
  "slide_path p \<Longrightarrow> p \<noteq> [] \<Longrightarrow> valid_board n (hd p) \<Longrightarrow> Suc i < length p \<Longrightarrow>
   p ! i \<noteq> p ! Suc i"
proof (induction p arbitrary: i rule: slide_path.induct)
  case 1 then show ?case by simp
next
  case (2 a) then show ?case by simp
next
  case (3 a b rest)
  show ?case
  proof (cases i)
    case 0
    with 3 slide_differs[of a b n] show ?thesis by simp
  next
    case (Suc k)
    have "valid_board n b" using 3 slide_valid_board[of a b n] by simp
    with 3 Suc show ?thesis by simp
  qed
qed

lemma valid_goal2: "valid_board 2 goal2"
  by (simp add: valid_board_def goal2_def upt_rec)

lemma valid_goal3: "valid_board 3 goal3"
  by (simp add: valid_board_def goal3_def upt_rec)

lemma same_cells_size: "same_cells a b \<Longrightarrow> length a = length b"
  by (metis same_cells_def length_map)

text \<open>What the frontier of every search keeps true of each of its states.\<close>

lemma path_invariant_start:
  "parent s0 = None \<Longrightarrow>
   slide_path (reconstruct_path s0) \<and> hd (reconstruct_path s0) = board s0
   \<and> same_cells (board s0) (board s0)"
  by (simp add: reconstruct_path_None same_cells_refl)

lemma path_invariant_step:
  assumes "slide_path (reconstruct_path c) \<and> hd (reconstruct_path c) = b0
           \<and> same_cells (board c) b0"
    and "get_successors c = Inr succs" "t \<in> set succs"
  shows "slide_path (reconstruct_path t) \<and> hd (reconstruct_path t) = b0
         \<and> same_cells (board t) b0"
proof -
  have p: "reconstruct_path t = reconstruct_path c @ [board t]"
    using parent_successor[OF assms(2,3)] by (rule reconstruct_path_Some)
  have l: "reconstruct_path c \<noteq> []" "last (reconstruct_path c) = board c"
    using reconstruct_path_last[of c] by simp_all
  have "slide (board c) (board t)" by (rule get_successors_slide[OF assms(2,3)])
  with assms(1) l have "slide_path (reconstruct_path t)"
    by (simp add: p slide_path_snoc)
  moreover have "hd (reconstruct_path t) = b0" using assms(1) l by (simp add: p)
  moreover have "same_cells (board t) b0"
    using get_successors_same_cells[OF assms(2,3)] assms(1) same_cells_trans by blast
  ultimately show ?thesis by simp
qed

lemma goal_path_properties:
  assumes inv: "slide_path (reconstruct_path cur) \<and> hd (reconstruct_path cur) = board s
           \<and> same_cells (board cur) (board s)"
    and goal: "is_goal cur"
    and r: "r = search_success alg key (reconstruct_path cur) n' m'"
  shows "\<exists>path. map_of r ''solution_path'' = Some (JPath path) \<and> path \<noteq> []
      \<and> hd path = board s \<and> last path = get_goal_state s \<and> slide_path path
      \<and> (\<forall>i. Suc i < length path \<longrightarrow> path ! i \<noteq> path ! Suc i)
      \<and> map_of r ''solution_depth'' = Some (JInt (int (length path) - 1))"
proof -
  let ?p = "reconstruct_path cur"
  have sz: "size_of cur = size_of s"
    using inv same_cells_size by (simp add: size_of_def)
  have last: "?p \<noteq> []" "last ?p = get_goal_state s"
    using reconstruct_path_last[of cur] goal sz by (simp_all add: is_goal_def get_goal_state_def)
  have "\<exists>n. valid_board n (board cur)"
    using goal valid_goal2 valid_goal3 by (auto simp: is_goal_def split: if_splits)
  then obtain n where "valid_board n (board cur)" by blast
  then have "valid_board n (board s)"
    using inv same_cells_valid_board same_cells_sym by blast
  then have "valid_board n (hd ?p)" using inv by simp
  then have diff: "\<forall>i. Suc i < length ?p \<longrightarrow> ?p ! i \<noteq> ?p ! Suc i"
    using slide_path_differs[of ?p n] inv last(1) by blast
  have "map_of r ''solution_path'' = Some (JPath ?p)"
    "map_of r ''solution_depth'' = Some (JInt (int (length ?p) - 1))"
    by (simp_all add: r search_success_def)
  with inv last diff show ?thesis by blast
qed

lemma bfs_solve_path:
  assumes "parent s = None" "bfs_solve s = Inr r" "map_of r ''success'' = Some (JBool True)"
  shows "\<exists>path. map_of r ''solution_path'' = Some (JPath path) \<and> path \<noteq> []
      \<and> hd path = board s \<and> last path = get_goal_state s \<and> slide_path path
      \<and> (\<forall>i. Suc i < length path \<longrightarrow> path ! i \<noteq> path ! Suc i)
      \<and> map_of r ''solution_depth'' = Some (JInt (int (length path) - 1))"
proof -
  from bfs_loop_success[OF assms(2)[unfolded bfs_solve_def] assms(3) bfs_start]
  obtain current rest visited' n' m' where reach: "bfs_reach s (current # rest) visited'"
    and goal: "is_goal current"
    and r: "r = search_success ''BFS'' ''max_queue_size'' (reconstruct_path current) n' m'"
    by blast
  have "\<forall>t \<in> set (current # rest). slide_path (reconstruct_path t)
      \<and> hd (reconstruct_path t) = board s \<and> same_cells (board t) (board s)"
  proof (rule bfs_reach_invariant[OF reach], goal_cases)
    case 1 show ?case by (rule path_invariant_start[OF assms(1)])
  next
    case (2 c succs t) then show ?case by (rule path_invariant_step)
  qed
  then have "slide_path (reconstruct_path current)
      \<and> hd (reconstruct_path current) = board s
      \<and> same_cells (board current) (board s)" by simp
  from goal_path_properties[OF this goal r] show ?thesis .
qed

lemma dfs_solve_path:
  assumes "parent s = None" "dfs_solve s depth_limit = Inr r"
    "map_of r ''success'' = Some (JBool True)"
  shows "\<exists>path. map_of r ''solution_path'' = Some (JPath path) \<and> path \<noteq> []
      \<and> hd path = board s \<and> last path = get_goal_state s \<and> slide_path path
      \<and> (\<forall>i. Suc i < length path \<longrightarrow> path ! i \<noteq> path ! Suc i)
      \<and> map_of r ''solution_depth'' = Some (JInt (int (length path) - 1))"
proof -
  from dfs_loop_success[OF assms(2)[unfolded dfs_solve_def] assms(3) dfs_start]
  obtain stack' visited' n' m' where reach: "dfs_reach s depth_limit stack' visited'"
    and ne: "stack' \<noteq> []" and goal: "is_goal (last stack')"
    and r: "r = search_success ''DFS'' ''max_stack_size'' (reconstruct_path (last stack')) n' m'"
    by blast
  have "\<forall>t \<in> set stack'. slide_path (reconstruct_path t)
      \<and> hd (reconstruct_path t) = board s \<and> same_cells (board t) (board s)"
  proof (rule dfs_reach_invariant[OF reach], goal_cases)
    case 1 show ?case by (rule path_invariant_start[OF assms(1)])
  next
    case (2 c succs t) then show ?case by (rule path_invariant_step)
  qed
  then have "slide_path (reconstruct_path (last stack'))
      \<and> hd (reconstruct_path (last stack')) = board s
      \<and> same_cells (board (last stack')) (board s)" using ne by simp
  from goal_path_properties[OF this goal r] show ?thesis .
qed

lemma astar_solve_reach:
  "astar_solve s = Inr r \<Longrightarrow> map_of r ''success'' = Some (JBool True) \<Longrightarrow>
   \<exists>pq visited' item rest n' m'. astar_reach s pq visited' \<and> heappop pq = Inr (item, rest)
      \<and> is_goal (snd (snd item))
      \<and> r = search_success ''A*'' ''max_queue_size'' (reconstruct_path (snd (snd item))) n' m'"
proof -
  assume a: "astar_solve s = Inr r" "map_of r ''success'' = Some (JBool True)"
  then obtain h where h: "manhattan_distance s = Inr h"
    and l: "astar_loop [(h, h, set_cost s h)] {board s} 0 0 = Inr r"
    by (auto simp: astar_solve_def Let_def set_cost_def split: sum.splits)
  from astar_loop_success[OF l a(2) astar_start[OF h]] show ?thesis .
qed

lemma astar_solve_path:
  assumes "parent s = None" "astar_solve s = Inr r" "map_of r ''success'' = Some (JBool True)"
  shows "\<exists>path. map_of r ''solution_path'' = Some (JPath path) \<and> path \<noteq> []
      \<and> hd path = board s \<and> last path = get_goal_state s \<and> slide_path path
      \<and> (\<forall>i. Suc i < length path \<longrightarrow> path ! i \<noteq> path ! Suc i)
      \<and> map_of r ''solution_depth'' = Some (JInt (int (length path) - 1))"
proof -
  from astar_solve_reach[OF assms(2,3)]
  obtain pq visited' item rest n' m' where reach: "astar_reach s pq visited'"
    and pop: "heappop pq = Inr (item, rest)" and goal: "is_goal (snd (snd item))"
    and r: "r = search_success ''A*'' ''max_queue_size'' (reconstruct_path (snd (snd item))) n' m'"
    by blast
  have "\<forall>i \<in> set pq. slide_path (reconstruct_path (snd (snd i)))
      \<and> hd (reconstruct_path (snd (snd i))) = board s
      \<and> same_cells (board (snd (snd i))) (board s)"
  proof (rule astar_reach_invariant[OF reach], goal_cases)
    case 1 show ?case by (rule path_invariant_start[OF assms(1)])
  next
    case (2 c succs t) then show ?case by (rule path_invariant_step)
  next
    case (3 t c) then show ?case by simp
  qed
  moreover have "item \<in> set pq" using heappop_set[OF pop] by simp
  ultimately have "slide_path (reconstruct_path (snd (snd item)))
      \<and> hd (reconstruct_path (snd (snd item))) = board s
      \<and> same_cells (board (snd (snd item))) (board s)" by blast
  from goal_path_properties[OF this goal r] show ?thesis .
qed

text \<open>
  Claim C3.  When breadth-first search, depth-first search (with any depth limit) or A*,
  started on a state without a parent, returns a result whose \<open>success\<close> is true, the
  \<open>solution_path\<close> of the result begins with the board of that state and ends with the
  canonical goal of its size, each board of the path arises from the one before it by
  exchanging the blank with an orthogonally adjacent cell and differs from it, and
  \<open>solution_depth\<close> is the length of the path minus one.
\<close>

theorem solution_path_is_valid:
  assumes "parent s = None"
    and "outcome \<in> {bfs_solve s, dfs_solve s depth_limit, astar_solve s}"
    and "outcome = Inr r" and "map_of r ''success'' = Some (JBool True)"
  shows "\<exists>path. map_of r ''solution_path'' = Some (JPath path) \<and> path \<noteq> []
      \<and> hd path = board s \<and> last path = get_goal_state s \<and> slide_path path
      \<and> (\<forall>i. Suc i < length path \<longrightarrow> path ! i \<noteq> path ! Suc i)
      \<and> map_of r ''solution_depth'' = Some (JInt (int (length path) - 1))"
proof -
  from assms(2,3) consider "bfs_solve s = Inr r" | "dfs_solve s depth_limit = Inr r"
    | "astar_solve s = Inr r" by auto
  then show ?thesis
  proof cases
    case 1 from bfs_solve_path[OF assms(1) 1 assms(4)] show ?thesis .
  next
    case 2 from dfs_solve_path[OF assms(1) 2 assms(4)] show ?thesis .
  next
    case 3 from astar_solve_path[OF assms(1) 3 assms(4)] show ?thesis .
  qed
qed

theorem solution_path_is_valid_witness:
  "parent (PuzzleState [[1, 2], [0, 3]] None None 0 0) = None
   \<and> bfs_solve (PuzzleState [[1, 2], [0, 3]] None None 0 0)
       = Inr (search_success ''BFS'' ''max_queue_size'' [[[1, 2], [0, 3]], [[1, 2], [3, 0]]] 3 2)
   \<and> map_of (search_success ''BFS'' ''max_queue_size'' [[[1, 2], [0, 3]], [[1, 2], [3, 0]]] 3 2)
        ''success'' = Some (JBool True)
   \<and> slide_path [[[1, 2], [0, 3]], [[1, 2], [3, 0]]]
   \<and> get_goal_state (PuzzleState [[1, 2], [0, 3]] None None 0 0) = [[1, 2], [3, 0]]"
proof -
  let ?s = "PuzzleState [[1, 2], [0, 3]] None None 0 0"
  let ?r = "search_success ''BFS'' ''max_queue_size'' [[[1, 2], [0, 3]], [[1, 2], [3, 0]]] 3 2"
  have run: "bfs_solve ?s = Inr ?r" by code_simp
  have ok: "map_of ?r ''success'' = Some (JBool True)" by (simp add: search_success_def)
  have path: "map_of ?r ''solution_path'' = Some (JPath [[[1, 2], [0, 3]], [[1, 2], [3, 0]]])"
    by (simp add: search_success_def)
  from solution_path_is_valid[of ?s "bfs_solve ?s" 50 ?r] run ok
  obtain p where "map_of ?r ''solution_path'' = Some (JPath p)" "slide_path p"
    "last p = get_goal_state ?s"
    by auto
  with path have "slide_path [[[1, 2], [0, 3]], [[1, 2], [3, 0]]]"
    "get_goal_state ?s = [[1, 2], [3, 0]]" by auto
  with run ok show ?thesis by simp
qed

section \<open>Which fields of a state are assigned after construction\<close>


lemma set_cost_twice [simp]: "set_cost (set_cost t c) c' = set_cost t c'"
  by (simp add: set_cost_def)

lemma set_cost_same [simp]: "set_cost t (cost t) = t"
  by (cases t) (simp add: set_cost_def)

section \<open>The Manhattan distance\<close>

lemma manhattan_cols_sum:
  "\<forall>j \<in> set js. j < length row \<and> (row ! j \<noteq> 0 \<longrightarrow> map_of tbl (row ! j) \<noteq> None) \<Longrightarrow>
   manhattan_cols tbl row i js d
     = Inr (d + sum_list (map (\<lambda>j. tile_distance tbl i j (row ! j)) js))"
proof (induction js arbitrary: d)
  case Nil then show ?case by simp
next
  case (Cons j js)
  show ?case
  proof (cases "row ! j = 0")
    case True
    with Cons show ?thesis by (simp add: tile_distance_def)
  next
    case False
    with Cons.prems obtain gr gc where g: "map_of tbl (row ! j) = Some (gr, gc)" by auto
    have "manhattan_cols tbl row i (j # js) d
        = manhattan_cols tbl row i js (d + (\<bar>int i - gr\<bar> + \<bar>int j - gc\<bar>))"
      using Cons.prems False g by simp
    also have "\<dots> = Inr (d + (\<bar>int i - gr\<bar> + \<bar>int j - gc\<bar>)
        + sum_list (map (\<lambda>j. tile_distance tbl i j (row ! j)) js))"
      using Cons.prems by (intro Cons.IH) simp
    finally show ?thesis using False g by (simp add: tile_distance_def)
  qed
qed

lemma manhattan_rows_sum:
  "\<forall>i \<in> set is. i < length b \<and>
     (\<forall>j < n. j < length (b ! i) \<and> (b ! i ! j \<noteq> 0 \<longrightarrow> map_of tbl (b ! i ! j) \<noteq> None)) \<Longrightarrow>
   manhattan_rows tbl b n is d
     = Inr (d + sum_list (map (\<lambda>i. sum_list (map (\<lambda>j. tile_distance tbl i j (b ! i ! j)) [0..<n])) is))"
proof (induction "is" arbitrary: d)
  case Nil then show ?case by simp
next
  case (Cons i "is")
  have "manhattan_cols tbl (b ! i) i [0..<n] d
      = Inr (d + sum_list (map (\<lambda>j. tile_distance tbl i j (b ! i ! j)) [0..<n]))"
    using Cons.prems by (intro manhattan_cols_sum) simp
  moreover have "manhattan_rows tbl b n is d'
      = Inr (d' + sum_list (map (\<lambda>i. sum_list (map (\<lambda>j. tile_distance tbl i j (b ! i ! j)) [0..<n])) is))"
    for d' using Cons.prems by (intro Cons.IH) simp
  ultimately show ?case using Cons.prems by simp
qed

lemma table_covers:
  assumes "n = 2 \<or> n = 3" "t \<in> int ` {0..<n * n}"
  shows "map_of (goal_table n) t \<noteq> None"
proof -
  from assms(2) obtain k where k: "k < n * n" "t = int k" by auto
  from assms(1) show ?thesis
  proof
    assume "n = 2"
    with k have "k \<in> {0, 1, 2, 3}" by auto
    with k \<open>n = 2\<close> show ?thesis by (auto simp: goal_table_def goal_positions2_def)
  next
    assume "n = 3"
    with k have "k \<in> {0, 1, 2, 3, 4, 5, 6, 7, 8}" by auto
    with k \<open>n = 3\<close> show ?thesis by (auto simp: goal_table_def goal_positions3_def)
  qed
qed

lemma valid_board_cell:
  assumes "valid_board n b" "i < n" "j < n"
  shows "b ! i ! j \<in> int ` {0..<n * n}"
proof -
  have "i < length b" "j < length (b ! i)"
    using assms valid_board_row_length[OF assms(1,2)] by (simp_all add: valid_board_def)
  then have "b ! i ! j \<in> set (concat b)" by (rule nth_nth_in_concat)
  then show ?thesis using valid_board_cells[OF assms(1)] by blast
qed

lemma goal_positions_table: "valid_board n (board s) \<Longrightarrow> goal_positions s = goal_table n"
  by (simp add: goal_positions_def goal_table_def valid_board_def size_of_def)

lemma manhattan_distance_valid:
  assumes "n = 2 \<or> n = 3" "valid_board n (board s)"
  shows "manhattan_distance s = Inr (manhattan_sum n (board s))"
proof -
  have len: "length (board s) = n" "size_of s = n"
    using assms(2) by (simp_all add: valid_board_def size_of_def)
  have "manhattan_rows (goal_table n) (board s) n [0..<n] 0
     = Inr (0 + sum_list (map (\<lambda>i. sum_list
         (map (\<lambda>j. tile_distance (goal_table n) i j (board s ! i ! j)) [0..<n])) [0..<n]))"
  proof (rule manhattan_rows_sum, intro ballI conjI allI impI)
    fix i assume "i \<in> set [0..<n]"
    then have i: "i < n" by simp
    then show "i < length (board s)" by (simp add: len)
    fix j assume j: "j < n"
    show "j < length (board s ! i)" using valid_board_row_length[OF assms(2) i] j by simp
    show "map_of (goal_table n) (board s ! i ! j) \<noteq> None"
      using table_covers[OF assms(1)] valid_board_cell[OF assms(2) i j] by blast
  qed
  also have "sum_list (map (\<lambda>i. sum_list
         (map (\<lambda>j. tile_distance (goal_table n) i j (board s ! i ! j)) [0..<n])) [0..<n])
      = (\<Sum>i \<in> {0..<n}. \<Sum>j \<in> {0..<n}. tile_distance (goal_table n) i j (board s ! i ! j))"
    by (simp add: interv_sum_list_conv_sum_set_nat)
  also have "\<dots> = manhattan_sum n (board s)"
    by (simp add: manhattan_sum_def cells_def sum.cartesian_product)
  finally show ?thesis
    by (simp add: manhattan_distance_def goal_positions_table[OF assms(2)] len)
qed

lemma tile_distance_nonneg: "0 \<le> tile_distance tbl i j t"
  by (simp add: tile_distance_def split: option.splits)

lemma tile_distance_blank [simp]: "tile_distance tbl i j 0 = 0"
  by (simp add: tile_distance_def)

lemma tile_distance_adjacent:
  "adjacent r c r' c' \<Longrightarrow> tile_distance tbl r c t \<le> 1 + tile_distance tbl r' c' t"
  by (auto simp: tile_distance_def adjacent_def split: option.splits)

lemma adjacent_sym: "adjacent r c r' c' \<Longrightarrow> adjacent r' c' r c"
  by (auto simp: adjacent_def)

lemma manhattan_sum_nonneg: "0 \<le> manhattan_sum n b"
  unfolding manhattan_sum_def by (intro sum_nonneg) (auto simp: tile_distance_nonneg)

lemma manhattan_sum_swap:
  assumes sw: "swap_cells b r c r' c' = Inr b'"
    and v: "valid_board n b" and z: "b ! r ! c = 0"
    and ne: "(r, c) \<noteq> (r', c')"
    and rc: "r < n" "c < n" "r' < n" "c' < n"
  shows "manhattan_sum n b' + tile_distance (goal_table n) r' c' (b ! r' ! c')
       = manhattan_sum n b + tile_distance (goal_table n) r c (b ! r' ! c')"
proof -
  let ?F = "\<lambda>b (i, j). tile_distance (goal_table n) i j (b ! i ! j)"
  let ?S = "cells n"
  have fin: "finite ?S" by (simp add: cells_def)
  have p: "(r, c) \<in> ?S" and q: "(r', c') \<in> ?S - {(r, c)}"
    using rc ne by (auto simp: cells_def)
  have len: "length b = n" using v by (simp add: valid_board_def)
  have nth: "b' ! i ! j = (if (i, j) = (r', c') then b ! r ! c
                      else if (i, j) = (r, c) then b ! r' ! c' else b ! i ! j)"
    if "i < n" "j < n" for i j
    using swap_cells_nth[OF sw, of i j] that len valid_board_row_length[OF v] by simp
  have split: "sum (?F x) ?S = ?F x (r, c) + ?F x (r', c') + sum (?F x) (?S - {(r, c)} - {(r', c')})"
    for x
    using sum.remove[OF fin p, of "?F x"] sum.remove[OF _ q, of "?F x"] fin by simp
  have rest: "sum (?F b') (?S - {(r, c)} - {(r', c')}) = sum (?F b) (?S - {(r, c)} - {(r', c')})"
  proof (rule sum.cong[OF refl])
    fix x assume x: "x \<in> ?S - {(r, c)} - {(r', c')}"
    obtain i j where ij: "x = (i, j)" by (cases x)
    with x have ij': "i < n" "j < n" "(i, j) \<noteq> (r, c)" "(i, j) \<noteq> (r', c')"
      by (auto simp: cells_def)
    have "b' ! i ! j = b ! i ! j" using nth[OF ij'(1,2)] ij'(3,4) by auto
    then show "?F b' x = ?F b x" by (simp add: ij)
  qed
  have b'p: "b' ! r ! c = b ! r' ! c'" using nth[OF rc(1,2)] ne by auto
  have b'q: "b' ! r' ! c' = 0" using nth[OF rc(3,4)] z by simp
  show ?thesis
    unfolding manhattan_sum_def split[of b'] split[of b] rest
    by (simp add: b'p b'q z)
qed

lemma slide_manhattan:
  assumes "slide a b" "valid_board n a"
  shows "manhattan_sum n a \<le> 1 + manhattan_sum n b"
    and "manhattan_sum n b \<le> 1 + manhattan_sum n a"
proof -
  from assms(1) obtain r c r' c' where rc: "r < length a" "c < length (a ! r)"
    and z: "a ! r ! c = 0" and adj: "adjacent r c r' c'"
    and sw: "swap_cells a r c r' c' = Inr b"
    unfolding slide_def by blast
  from sw have r'c': "r' < length a" "c' < length (a ! r')"
    by (auto simp: swap_cells_def split: if_splits)
  have len: "length a = n" using assms(2) by (simp add: valid_board_def)
  have bnd: "r < n" "c < n" "r' < n" "c' < n"
    using rc r'c' len valid_board_row_length[OF assms(2)] by auto
  have ne: "(r, c) \<noteq> (r', c')" using adj by (auto simp: adjacent_def)
  note eq = manhattan_sum_swap[OF sw assms(2) z ne bnd]
  from tile_distance_adjacent[OF adj, of "goal_table n" "a ! r' ! c'"]
    tile_distance_adjacent[OF adjacent_sym[OF adj], of "goal_table n" "a ! r' ! c'"] eq
  show "manhattan_sum n a \<le> 1 + manhattan_sum n b" "manhattan_sum n b \<le> 1 + manhattan_sum n a"
    by linarith+
qed

lemma valid_goal_board: "n = 2 \<or> n = 3 \<Longrightarrow> valid_board n (goal_board n)"
  using valid_goal2 valid_goal3 by (auto simp: goal_board_def)

lemma manhattan_sum_goal:
  assumes "n = 2 \<or> n = 3"
  shows "manhattan_sum n (goal_board n) = 0"
proof -
  have "manhattan_distance (PuzzleState goal2 None None 0 0) = Inr 0" by code_simp
  moreover have "manhattan_distance (PuzzleState goal3 None None 0 0) = Inr 0" by code_simp
  moreover have "manhattan_distance (PuzzleState (goal_board n) None None 0 0)
      = Inr (manhattan_sum n (goal_board n))"
    using manhattan_distance_valid[OF assms, of "PuzzleState (goal_board n) None None 0 0"]
      valid_goal_board[OF assms] by simp
  ultimately show ?thesis using assms by (auto simp: goal_board_def)
qed

lemma slide_path_manhattan:
  "slide_path p \<Longrightarrow> p \<noteq> [] \<Longrightarrow> valid_board n (hd p) \<Longrightarrow>
   manhattan_sum n (hd p) \<le> manhattan_sum n (last p) + int (length p) - 1"
proof (induction p rule: slide_path.induct)
  case 1 then show ?case by simp
next
  case (2 a) then show ?case by simp
next
  case (3 a b rest)
  have "valid_board n b" using 3 slide_valid_board[of a b n] by simp
  with 3 have "manhattan_sum n b \<le> manhattan_sum n (last (b # rest)) + int (length (b # rest)) - 1"
    by simp
  moreover have "manhattan_sum n a \<le> 1 + manhattan_sum n b"
    using slide_manhattan(1)[of a b n] 3 by simp
  ultimately show ?case by simp
qed

lemma goal_table_entry:
  assumes "n = 2 \<or> n = 3" "t \<noteq> 0" "map_of (goal_table n) t = Some (gr, gc)"
  shows "0 \<le> gr \<and> gr < int n \<and> 0 \<le> gc \<and> gc < int n \<and> goal_board n ! nat gr ! nat gc = t"
proof -
  from assms(3) have mem: "(t, (gr, gc)) \<in> set (goal_table n)" by (rule map_of_SomeD)
  from assms(1) show ?thesis
  proof
    assume n: "n = 2"
    with mem assms(2) show ?thesis
      by (auto simp: goal_table_def goal_positions2_def goal_board_def goal2_def)
  next
    assume n: "n = 3"
    with mem assms(2) show ?thesis
      by (auto simp: goal_table_def goal_positions3_def goal_board_def goal3_def)
  qed
qed

lemma manhattan_zero_cells:
  assumes n: "n = 2 \<or> n = 3" and v: "valid_board n b" and h: "manhattan_sum n b = 0"
    and ij: "i < n" "j < n" and nz: "b ! i ! j \<noteq> 0"
  shows "goal_board n ! i ! j = b ! i ! j"
proof -
  have "\<forall>x \<in> cells n. (case x of (i, j) \<Rightarrow> tile_distance (goal_table n) i j (b ! i ! j)) = 0"
    using h unfolding manhattan_sum_def
    by (subst (asm) sum_nonneg_eq_0_iff) (auto simp: cells_def tile_distance_nonneg)
  with ij have td: "tile_distance (goal_table n) i j (b ! i ! j) = 0"
    by (auto simp: cells_def)
  from table_covers[OF n valid_board_cell[OF v ij]] obtain gr gc where
    g: "map_of (goal_table n) (b ! i ! j) = Some (gr, gc)" by auto
  from td nz g have "\<bar>int i - gr\<bar> + \<bar>int j - gc\<bar> = 0" by (simp add: tile_distance_def)
  then have "gr = int i" "gc = int j" by linarith+
  with goal_table_entry[OF n nz g] show ?thesis by simp
qed

lemma manhattan_zero_goal:
  assumes n: "n = 2 \<or> n = 3" and v: "valid_board n b" and h: "manhattan_sum n b = 0"
  shows "b = goal_board n"
proof -
  let ?g = "goal_board n"
  have vg: "valid_board n ?g" by (rule valid_goal_board[OF n])
  have lens: "length b = n" "length ?g = n" using v vg by (simp_all add: valid_board_def)
  have cell: "b ! i ! j = ?g ! i ! j" if ij: "i < n" "j < n" for i j
  proof (cases "b ! i ! j = 0")
    case False
    from manhattan_zero_cells[OF n v h ij False] show ?thesis by simp
  next
    case True
    have "?g ! i ! j = 0"
    proof (rule ccontr)
      assume nz: "?g ! i ! j \<noteq> 0"
      have "?g ! i ! j \<in> set (concat b)"
        using valid_board_cell[OF vg ij] valid_board_cells[OF v] by simp
      from in_concat_nth[OF this] obtain i' j' where
        i'j': "i' < length b" "j' < length (b ! i')" and eq: "b ! i' ! j' = ?g ! i ! j" by blast
      have b': "i' < n" "j' < n" using i'j' lens valid_board_row_length[OF v] by auto
      from manhattan_zero_cells[OF n v h b'] eq nz have "?g ! i' ! j' = ?g ! i ! j" by simp
      moreover have "i' < length ?g" "j' < length (?g ! i')" "i < length ?g" "j < length (?g ! i)"
        using b' ij lens valid_board_row_length[OF vg] by auto
      ultimately have "i' = i \<and> j' = j"
        using distinct_concat_cells[OF valid_board_distinct[OF vg]] by blast
      with eq True nz show False by simp
    qed
    with True show ?thesis by simp
  qed
  show ?thesis
  proof (rule nth_equalityI)
    show "length b = length ?g" using lens by simp
    fix i assume "i < length b"
    then have i: "i < n" using lens by simp
    show "b ! i = ?g ! i"
    proof (rule nth_equalityI)
      show "length (b ! i) = length (?g ! i)"
        using valid_board_row_length[OF v i] valid_board_row_length[OF vg i] by simp
      fix j assume "j < length (b ! i)"
      then have "j < n" using valid_board_row_length[OF v i] by simp
      with cell[OF i] show "b ! i ! j = ?g ! i ! j" by simp
    qed
  qed
qed

lemma is_goal_valid:
  "valid_board n (board s) \<Longrightarrow> is_goal s \<longleftrightarrow> board s = goal_board n"
  by (auto simp: is_goal_def goal_board_def valid_board_def size_of_def goal2_def goal3_def)

text \<open>
  Claim C4.  On a state whose board is a permutation board of size 2 or 3,
  \<open>manhattan_distance\<close> raises nothing and returns a value \<open>h\<close> such that: \<open>h\<close> is 0 exactly
  when the state is the goal; every successor has a value \<open>h'\<close> with \<open>h \<le> 1 + h'\<close>
  (consistency); and every sequence of legal moves that leads from the board to the canonical
  goal has at least \<open>h\<close> moves (admissibility).
\<close>

theorem manhattan_admissible_consistent:
  assumes "n = 2 \<or> n = 3" and "valid_board n (board s)"
  shows "\<exists>h. manhattan_distance s = Inr h
    \<and> (h = 0 \<longleftrightarrow> is_goal s)
    \<and> (\<forall>succs t. get_successors s = Inr succs \<and> t \<in> set succs \<longrightarrow>
          (\<exists>h'. manhattan_distance t = Inr h' \<and> h \<le> 1 + h'))
    \<and> (\<forall>p. p \<noteq> [] \<and> hd p = board s \<and> last p = get_goal_state s \<and> slide_path p \<longrightarrow>
          h \<le> int (length p) - 1)"
proof -
  let ?h = "manhattan_sum n (board s)"
  have 1: "manhattan_distance s = Inr ?h"
    by (rule manhattan_distance_valid[OF assms])
  have 2: "?h = 0 \<longleftrightarrow> is_goal s"
    using manhattan_zero_goal[OF assms] manhattan_sum_goal[OF assms(1)] is_goal_valid[OF assms(2)]
    by auto
  have 3: "\<exists>h'. manhattan_distance t = Inr h' \<and> ?h \<le> 1 + h'"
    if a: "get_successors s = Inr succs \<and> t \<in> set succs" for succs t
  proof -
    from a have v: "valid_board n (board t)" using valid_successor[OF assms(2)] by blast
    have "slide (board s) (board t)" using a get_successors_slide by blast
    from slide_manhattan(1)[OF this assms(2)] manhattan_distance_valid[OF assms(1) v]
    show ?thesis by simp
  qed
  have 4: "?h \<le> int (length p) - 1"
    if a: "p \<noteq> [] \<and> hd p = board s \<and> last p = get_goal_state s \<and> slide_path p" for p
  proof -
    have "get_goal_state s = goal_board n"
      using assms(2) by (simp add: get_goal_state_def goal_board_def valid_board_def size_of_def)
    with a slide_path_manhattan[of p n] assms(2) manhattan_sum_goal[OF assms(1)]
    show ?thesis by simp
  qed
  from 1 2 3 4 show ?thesis by blast
qed

theorem manhattan_admissible_consistent_witness:
  "((2::nat) = 2 \<or> (2::nat) = 3)
   \<and> valid_board 2 (board (PuzzleState [[1, 2], [0, 3]] None None 0 0))
   \<and> manhattan_distance (PuzzleState [[1, 2], [0, 3]] None None 0 0) = Inr 1
   \<and> \<not> is_goal (PuzzleState [[1, 2], [0, 3]] None None 0 0)
   \<and> slide_path [[[1, 2], [0, 3]], [[1, 2], [3, 0]]]
   \<and> (1::int) \<le> int (length [[[1, 2], [0, 3]], [[1, 2], [3, 0 :: int]]]) - 1"
proof -
  let ?s = "PuzzleState [[1, 2], [0, 3]] None None 0 0"
  let ?p = "[[[1, 2], [0, 3]], [[1, 2], [3, 0 :: int]]]"
  have v: "valid_board 2 (board ?s)" using valid_board_example by simp
  have h: "manhattan_distance ?s = Inr 1" by code_simp
  have sl: "slide [[1, 2], [0, 3]] [[1, 2], [3, 0]]"
    unfolding slide_def
    by (intro exI[of _ 1] exI[of _ 0] exI[of _ "Suc 0"]) (simp add: adjacent_def swap_cells_def)
  then have sp: "slide_path ?p" by simp
  have g: "get_goal_state ?s = [[1, 2], [3, 0]]" by code_simp
  from manhattan_admissible_consistent[of 2 ?s] v h sp g
  have "\<not> is_goal ?s \<and> (1::int) \<le> int (length ?p) - 1" by fastforce
  with v h sp show ?thesis by simp
qed

section \<open>Breadth-first search finds a shortest solution\<close>

lemma reach_in_0: "reach_in 0 a b \<longleftrightarrow> a = b"
proof
  assume "reach_in 0 a b"
  then obtain p where p: "p \<noteq> []" "hd p = a" "last p = b" "length p = Suc 0"
    unfolding reach_in_def by blast
  then obtain x where "p = [x]" by (cases p) auto
  with p show "a = b" by simp
next
  assume "a = b"
  then show "reach_in 0 a b"
    unfolding reach_in_def by (intro exI[of _ "[a]"]) simp
qed

lemma reach_in_step: "reach_in k a b \<Longrightarrow> slide b c \<Longrightarrow> reach_in (Suc k) a c"
proof -
  assume "reach_in k a b" and s: "slide b c"
  then obtain p where p: "p \<noteq> []" "hd p = a" "last p = b" "slide_path p" "length p = Suc k"
    unfolding reach_in_def by blast
  show ?thesis
    unfolding reach_in_def
    by (intro exI[of _ "p @ [c]"]) (use p s in \<open>simp add: slide_path_snoc\<close>)
qed

lemma reach_in_Suc: "reach_in (Suc k) a c \<Longrightarrow> \<exists>b. reach_in k a b \<and> slide b c"
proof -
  assume "reach_in (Suc k) a c"
  then obtain p where p: "p \<noteq> []" "hd p = a" "last p = c" "slide_path p" "length p = Suc (Suc k)"
    unfolding reach_in_def by blast
  let ?q = "butlast p"
  have ql: "length ?q = Suc k" using p by simp
  then have "?q \<noteq> []" by (metis list.size(3) nat.simps(3))
  with ql have q: "?q \<noteq> []" "length ?q = Suc k" by blast+
  have pe: "p = ?q @ [c]" using p by (metis append_butlast_last_id)
  have "hd ?q = a" using p q by (metis hd_append2 pe)
  moreover have "slide_path ?q \<and> slide (last ?q) c"
    using p(4) q(1) by (subst (asm) pe) (simp add: slide_path_snoc)
  ultimately have "reach_in k a (last ?q)" "slide (last ?q) c"
    unfolding reach_in_def using q by blast+
  then show ?thesis by blast
qed

lemma level_None: "parent s = None \<Longrightarrow> level s = 0"
  by (simp add: level_def reconstruct_path_None)

lemma level_successor:
  "get_successors c = Inr succs \<Longrightarrow> t \<in> set succs \<Longrightarrow> level t = Suc (level c)"
  using reconstruct_path_Some[OF parent_successor, of c succs t] reconstruct_path_last[of c]
  by (simp add: level_def)

lemma bfs_inv_start:
  assumes "parent s = None" "valid_board n (board s)"
  shows "bfs_inv n (board s) [s] {board s}"
  unfolding bfs_inv_def using assms by (auto simp: level_None reach_in_0)

lemma append_unvisited_new:
  "\<exists>pushed. fst (append_unvisited xs q vis) = q @ pushed \<and> set pushed \<subseteq> set xs
      \<and> board ` set pushed = board ` set xs - vis"
proof -
  from append_unvisited_pushed[of xs q vis] obtain pushed where
    p: "fst (append_unvisited xs q vis) = q @ pushed" "subseq pushed xs"
       "board ` set pushed = board ` set xs - vis" by blast
  have "set pushed \<subseteq> set xs" using list_emb_set[OF p(2)] by blast
  with p show ?thesis by blast
qed

lemma sorted_map_last:
  "sorted (map f xs) \<Longrightarrow> x \<in> set xs \<Longrightarrow> f x \<le> f (last xs)"
  by (induction xs) (auto simp: last_in_set)

lemma sorted_map_hd:
  "sorted (map f xs) \<Longrightarrow> x \<in> set xs \<Longrightarrow> f (hd xs) \<le> f x"
  by (cases xs) auto

lemma sorted_map_const: "\<forall>x \<in> set xs. f x = (v::nat) \<Longrightarrow> sorted (map f xs)"
  by (induction xs) auto

lemma bfs_inv_step:
  assumes inv: "bfs_inv n b0 (c # q) vis" and n: "n = 2 \<or> n = 3"
    and ng: "\<not> is_goal c" and gs: "get_successors c = Inr succs"
  shows "bfs_inv n b0 (fst (append_unvisited succs q vis)) (snd (append_unvisited succs q vis))"
proof -
  let ?q' = "fst (append_unvisited succs q vis)" and ?vis' = "snd (append_unvisited succs q vis)"
  let ?k = "level c"
  from append_unvisited_new[of succs q vis] obtain pushed where
    q': "?q' = q @ pushed" and psub: "set pushed \<subseteq> set succs"
    and pb: "board ` set pushed = board ` set succs - vis" by blast
  have vis': "?vis' = vis \<union> board ` set succs" by (rule append_unvisited_visited)
  from inv have b0: "b0 \<in> vis"
    and c: "board c \<in> vis" "reach_in ?k b0 (board c)"
    and cmin: "\<And>k. reach_in k b0 (board c) \<Longrightarrow> ?k \<le> k"
    and qs: "\<And>t. t \<in> set q \<Longrightarrow> board t \<in> vis \<and> reach_in (level t) b0 (board t)
               \<and> (\<forall>k. reach_in k b0 (board t) \<longrightarrow> level t \<le> k)"
    and srt: "sorted (map level (c # q))"
    and lst: "level (last (c # q)) \<le> Suc ?k"
    and below: "\<And>k b. k \<le> ?k \<Longrightarrow> reach_in k b0 b \<Longrightarrow> b \<in> vis"
    and closed: "\<And>a. a \<in> vis \<Longrightarrow> a \<notin> board ` set (c # q) \<Longrightarrow>
                   a \<noteq> goal_board n \<and> (\<forall>b. slide a b \<longrightarrow> b \<in> vis)"
    and valid: "\<And>a. a \<in> vis \<Longrightarrow> valid_board n a"
    unfolding bfs_inv_def by simp_all
  have n0: "0 < n" using n by auto
  have vc: "valid_board n (board c)" using valid c(1) by blast
  have succ_level: "\<And>t. t \<in> set succs \<Longrightarrow> level t = Suc ?k"
    using level_successor[OF gs] by blast
  have succ_slide: "\<And>t. t \<in> set succs \<Longrightarrow> slide (board c) (board t)"
    using get_successors_slide[OF gs] by blast
  have succ_complete: "\<And>b. slide (board c) b \<Longrightarrow> b \<in> board ` set succs"
    using get_successors_complete[OF vc n0 _ gs] by blast
  have qlevel: "\<And>t. t \<in> set q \<Longrightarrow> ?k \<le> level t \<and> level t \<le> Suc ?k"
  proof -
    fix t assume t: "t \<in> set q"
    then have "?k \<le> level t" using srt by auto
    moreover have "level t \<le> level (last (c # q))"
      using sorted_map_last[OF srt, of t] t by simp
    ultimately show "?k \<le> level t \<and> level t \<le> Suc ?k" using lst by simp
  qed
  have plevel: "\<And>t. t \<in> set pushed \<Longrightarrow> level t = Suc ?k \<and> board t \<notin> vis"
    using succ_level psub pb by blast
  show ?thesis
    unfolding bfs_inv_def
  proof (intro conjI ballI impI allI)
    show "b0 \<in> ?vis'" using b0 vis' by simp
  next
    fix t assume "t \<in> set ?q'"
    then consider "t \<in> set q" | "t \<in> set pushed" using q' by auto
    then show "board t \<in> ?vis'"
      using qs psub vis' by cases auto
  next
    fix t assume "t \<in> set ?q'"
    then consider "t \<in> set q" | "t \<in> set pushed" using q' by auto
    then show "reach_in (level t) b0 (board t)"
    proof cases
      case 1 then show ?thesis using qs by blast
    next
      case 2
      then have "t \<in> set succs" using psub by blast
      with reach_in_step[OF c(2) succ_slide] succ_level show ?thesis by simp
    qed
  next
    fix t k assume "t \<in> set ?q'" and r: "reach_in k b0 (board t)"
    then consider "t \<in> set q" | "t \<in> set pushed" using q' by auto
    then show "level t \<le> k"
    proof cases
      case 1 then show ?thesis using qs r by blast
    next
      case 2
      have "\<not> k \<le> ?k" using below[OF _ r] plevel[OF 2] by blast
      with plevel[OF 2] show ?thesis by simp
    qed
  next
    have "sorted (map level q)" using srt by simp
    moreover have "sorted (map level pushed)"
      using plevel by (intro sorted_map_const[where v = "Suc ?k"]) auto
    ultimately show "sorted (map level ?q')"
      unfolding q' using qlevel plevel by (auto simp: sorted_append)
  next
    assume ne: "?q' \<noteq> []"
    have hd: "?k \<le> level (hd ?q')"
      using ne qlevel plevel unfolding q' by (cases q) (auto simp: hd_append)
    have "last ?q' \<in> set ?q'" using ne by simp
    then have "level (last ?q') \<le> Suc ?k"
      using qlevel plevel unfolding q' by auto
    with hd show "level (last ?q') \<le> Suc (level (hd ?q'))" by simp
  next
    fix k b assume ne: "?q' \<noteq> []" and k: "k \<le> level (hd ?q')" and r: "reach_in k b0 b"
    show "b \<in> ?vis'"
    proof (cases "k \<le> ?k")
      case True
      from below[OF True r] show ?thesis using vis' by simp
    next
      case False
      have "hd ?q' \<in> set ?q'" using ne by simp
      then have hdl: "level (hd ?q') \<le> Suc ?k" using qlevel plevel unfolding q' by auto
      with False k have k': "k = Suc ?k" and hd: "level (hd ?q') = Suc ?k" by simp_all
      from reach_in_Suc[OF r[unfolded k']] obtain a where
        a: "reach_in ?k b0 a" "slide a b" by blast
      have av: "a \<in> vis" using below[OF _ a(1)] by simp
      show ?thesis
      proof (cases "a \<in> board ` set (c # q)")
        case False
        with closed[OF av] a(2) show ?thesis using vis' by simp
      next
        case True
        then obtain u where u: "u \<in> set (c # q)" "board u = a" by auto
        have "u \<notin> set q"
        proof
          assume uq: "u \<in> set q"
          then have "level u \<le> ?k" using qs a(1) u(2) by blast
          moreover have "level (hd ?q') \<le> level u"
          proof -
            have "sorted (map level q)" using srt by simp
            moreover have "hd ?q' = hd q" using uq unfolding q' by (cases q) auto
            ultimately show ?thesis using sorted_map_hd[of level q u] uq by simp
          qed
          ultimately show False using hd by simp
        qed
        with u have "a = board c" by auto
        with a(2) succ_complete show ?thesis using vis' by blast
      qed
    qed
  next
    fix a assume a: "a \<in> ?vis'" "a \<notin> board ` set ?q'"
    have "a \<in> vis"
    proof (rule ccontr)
      assume "a \<notin> vis"
      with a(1) vis' pb have "a \<in> board ` set pushed" by blast
      with a(2) show False unfolding q' by auto
    qed
    have aq: "a \<notin> board ` set q" using a(2) unfolding q' by auto
    show "a \<noteq> goal_board n"
    proof (cases "a = board c")
      case True
      with ng is_goal_valid[OF vc] show ?thesis by simp
    next
      case False
      with aq closed[OF \<open>a \<in> vis\<close>] show ?thesis by auto
    qed
    fix b assume sl: "slide a b"
    show "b \<in> ?vis'"
    proof (cases "a = board c")
      case True
      with sl succ_complete show ?thesis using vis' by blast
    next
      case False
      with aq closed[OF \<open>a \<in> vis\<close>] sl show ?thesis using vis' by auto
    qed
  next
    fix a assume "a \<in> ?vis'"
    then consider "a \<in> vis" | "a \<in> board ` set succs" using vis' by auto
    then show "valid_board n a"
    proof cases
      case 1 then show ?thesis using valid by blast
    next
      case 2 then show ?thesis using valid_successor[OF vc gs] by blast
    qed
  qed
qed

lemma bfs_reach_inv:
  assumes "n = 2 \<or> n = 3" "valid_board n (board s)" "parent s = None"
    and "bfs_reach s queue visited"
  shows "bfs_inv n (board s) queue visited"
  using assms(4)
proof (induction rule: bfs_reach.induct)
  case bfs_start
  show ?case by (rule bfs_inv_start[OF assms(3,2)])
next
  case (bfs_expand current queue visited successors)
  then show ?case using bfs_inv_step[OF _ assms(1)] by blast
qed

lemma bfs_inv_exhausted:
  assumes "bfs_inv n b0 [] visited"
  shows "reach_in k b0 b \<Longrightarrow> b \<in> visited \<and> b \<noteq> goal_board n"
proof (induction k arbitrary: b)
  case 0
  then have "b = b0" by (simp add: reach_in_0)
  with assms show ?case unfolding bfs_inv_def by simp
next
  case (Suc k)
  from reach_in_Suc[OF Suc.prems] obtain a where a: "reach_in k b0 a" "slide a b" by blast
  from Suc.IH[OF a(1)] have "a \<in> visited" by simp
  with assms a(2) have "b \<in> visited" unfolding bfs_inv_def by simp
  with assms show ?case unfolding bfs_inv_def by simp
qed

lemma bfs_loop_succeeds:
  "bfs_inv n b0 queue visited \<Longrightarrow> n = 2 \<or> n = 3 \<Longrightarrow> reach_in kg b0 (goal_board n) \<Longrightarrow>
   \<exists>r. bfs_loop queue visited nodes m = Inr r \<and> map_of r ''success'' = Some (JBool True)"
proof (induction queue visited nodes m rule: bfs_loop.induct)
  case (1 visited nodes_expanded max_queue_size)
  from bfs_inv_exhausted[OF 1(1) 1(3)] show ?case by simp
next
  case (2 current queue visited nodes_expanded max_queue_size)
  show ?case
  proof (cases "is_goal current")
    case True
    then show ?thesis by (simp add: search_success_def)
  next
    case False
    have "valid_board n (board current)" using 2(2) unfolding bfs_inv_def by simp
    moreover have "0 < n" using 2(3) by auto
    ultimately obtain successors where s: "get_successors current = Inr successors"
      using get_successors_valid by blast
    have "bfs_inv n b0 (fst (append_unvisited successors queue visited))
        (snd (append_unvisited successors queue visited))"
      by (rule bfs_inv_step[OF 2(2,3) False s])
    from 2(1)[OF False s this 2(3,4)] False s show ?thesis by simp
  qed
qed

lemma path_reach_in:
  "p \<noteq> [] \<Longrightarrow> hd p = a \<Longrightarrow> last p = b \<Longrightarrow> slide_path p \<Longrightarrow> reach_in (length p - 1) a b"
  unfolding reach_in_def by (intro exI[of _ p]) simp

lemma bfs_solve_shortest:
  assumes "n = 2 \<or> n = 3" and "valid_board n (board s)" and "parent s = None"
    and "p \<noteq> [] \<and> hd p = board s \<and> last p = get_goal_state s \<and> slide_path p"
  shows "\<exists>r path. bfs_solve s = Inr r \<and> map_of r ''success'' = Some (JBool True)
    \<and> map_of r ''solution_path'' = Some (JPath path)
    \<and> map_of r ''solution_depth'' = Some (JInt (int (length path) - 1))
    \<and> path \<noteq> [] \<and> hd path = board s \<and> last path = get_goal_state s \<and> slide_path path
    \<and> (\<forall>p'. p' \<noteq> [] \<and> hd p' = board s \<and> last p' = get_goal_state s \<and> slide_path p' \<longrightarrow>
          length path \<le> length p')"
proof -
  have goal: "get_goal_state s = goal_board n"
    using assms(2) by (simp add: get_goal_state_def goal_board_def valid_board_def size_of_def)
  have "reach_in (length p - 1) (board s) (goal_board n)"
    using assms(4) goal by (intro path_reach_in) simp_all
  from bfs_loop_succeeds[OF bfs_inv_start[OF assms(3,2)] assms(1) this, of 0 0]
  obtain r where r: "bfs_solve s = Inr r" "map_of r ''success'' = Some (JBool True)"
    by (auto simp: bfs_solve_def)
  from bfs_loop_success[OF r(1)[unfolded bfs_solve_def] r(2) bfs_start]
  obtain current rest visited' n' m' where reach: "bfs_reach s (current # rest) visited'"
    and ig: "is_goal current"
    and rdef: "r = search_success ''BFS'' ''max_queue_size'' (reconstruct_path current) n' m'"
    by blast
  let ?path = "reconstruct_path current"
  have sp: "map_of r ''solution_path'' = Some (JPath ?path)"
    by (simp add: rdef search_success_def)
  from bfs_solve_path[OF assms(3) r] sp
  have props: "map_of r ''solution_depth'' = Some (JInt (int (length ?path) - 1))"
    "?path \<noteq> []" "hd ?path = board s" "last ?path = get_goal_state s" "slide_path ?path"
    by auto
  from bfs_reach_inv[OF assms(1,2,3) reach]
  have min: "\<And>k. reach_in k (board s) (board current) \<Longrightarrow> level current \<le> k"
    and vc: "valid_board n (board current)"
    unfolding bfs_inv_def by simp_all
  have bc: "board current = goal_board n" using ig is_goal_valid[OF vc] by simp
  have shortest: "length ?path \<le> length p'"
    if "p' \<noteq> [] \<and> hd p' = board s \<and> last p' = get_goal_state s \<and> slide_path p'" for p'
  proof -
    have "reach_in (length p' - 1) (board s) (board current)"
      using that goal bc by (intro path_reach_in) simp_all
    from min[OF this] have "length ?path - 1 \<le> length p' - 1" by (simp add: level_def)
    moreover have "0 < length p'" "0 < length ?path" using that props(2) by simp_all
    ultimately show ?thesis by linarith
  qed
  from r sp props shortest show ?thesis by blast
qed

text \<open>
  Claim C1.  On a state without a parent whose board is a permutation board of size 2 or 3
  from which some sequence of legal moves leads to the canonical goal, breadth-first search
  returns a result with \<open>success\<close> true; its \<open>solution_path\<close> is a sequence of legal moves
  from the board to the goal, \<open>solution_depth\<close> is the number of its moves, and no sequence
  of legal moves from the board to the goal is shorter.
\<close>

theorem bfs_finds_shortest_path:
  assumes "n = 2 \<or> n = 3" and "valid_board n (board s)" and "parent s = None"
    and "p \<noteq> [] \<and> hd p = board s \<and> last p = get_goal_state s \<and> slide_path p"
  shows "\<exists>r path. bfs_solve s = Inr r \<and> map_of r ''success'' = Some (JBool True)
    \<and> map_of r ''solution_path'' = Some (JPath path)
    \<and> map_of r ''solution_depth'' = Some (JInt (int (length path) - 1))
    \<and> path \<noteq> [] \<and> hd path = board s \<and> last path = get_goal_state s \<and> slide_path path
    \<and> (\<forall>p'. p' \<noteq> [] \<and> hd p' = board s \<and> last p' = get_goal_state s \<and> slide_path p' \<longrightarrow>
          length path \<le> length p')"
  using assms by (rule bfs_solve_shortest)

theorem bfs_finds_shortest_path_witness:
  "((2::nat) = 2 \<or> (2::nat) = 3)
   \<and> valid_board 2 (board (PuzzleState [[1, 2], [0, 3]] None None 0 0))
   \<and> parent (PuzzleState [[1, 2], [0, 3]] None None 0 0) = None
   \<and> hd [[[1, 2], [0, 3]], [[1, 2], [3, 0 :: int]]] = board (PuzzleState [[1, 2], [0, 3]] None None 0 0)
   \<and> last [[[1, 2], [0, 3]], [[1, 2], [3, 0]]]
       = get_goal_state (PuzzleState [[1, 2], [0, 3]] None None 0 0)
   \<and> slide_path [[[1, 2], [0, 3]], [[1, 2], [3, 0]]]
   \<and> (\<exists>r. bfs_solve (PuzzleState [[1, 2], [0, 3]] None None 0 0) = Inr r
         \<and> map_of r ''success'' = Some (JBool True))"
proof -
  let ?s = "PuzzleState [[1, 2], [0, 3]] None None 0 0"
  let ?p = "[[[1, 2], [0, 3]], [[1, 2], [3, 0 :: int]]]"
  have v: "valid_board 2 (board ?s)" using valid_board_example by simp
  have sl: "slide [[1, 2], [0, 3]] [[1, 2], [3, 0]]"
    unfolding slide_def
    by (intro exI[of _ 1] exI[of _ 0] exI[of _ "Suc 0"]) (simp add: adjacent_def swap_cells_def)
  then have sp: "slide_path ?p" by simp
  have g: "get_goal_state ?s = [[1, 2], [3, 0]]" by code_simp
  have hyp: "?p \<noteq> [] \<and> hd ?p = board ?s \<and> last ?p = get_goal_state ?s \<and> slide_path ?p"
    using sp g by simp
  from bfs_finds_shortest_path[of 2 ?s ?p, OF _ v _ hyp]
  have "\<exists>r. bfs_solve ?s = Inr r \<and> map_of r ''success'' = Some (JBool True)" by auto
  with v sp g show ?thesis by simp
qed

section \<open>A* and the optimal depth\<close>

lemma slideI:
  "r < length a \<Longrightarrow> c < length (a ! r) \<Longrightarrow> a ! r ! c = 0 \<Longrightarrow> adjacent r c r' c' \<Longrightarrow>
   swap_cells a r c r' c' = Inr b \<Longrightarrow> slide a b"
  unfolding slide_def by blast

lemma ten_move_path:
  "slide_path
     [[[1, 3, 5], [4, 0, 8], [7, 6, 2]],
      [[1, 3, 5], [4, 8, 0], [7, 6, 2]],
      [[1, 3, 5], [4, 8, 2], [7, 6, 0]],
      [[1, 3, 5], [4, 8, 2], [7, 0, 6]],
      [[1, 3, 5], [4, 0, 2], [7, 8, 6]],
      [[1, 3, 5], [4, 2, 0], [7, 8, 6]],
      [[1, 3, 0], [4, 2, 5], [7, 8, 6]],
      [[1, 0, 3], [4, 2, 5], [7, 8, 6]],
      [[1, 2, 3], [4, 0, 5], [7, 8, 6]],
      [[1, 2, 3], [4, 5, 0], [7, 8, 6]],
      [[1, 2, 3], [4, 5, 6], [7, 8, 0]]]"
proof -
  have "slide [[1, 3, 5], [4, 0, 8], [7, 6, 2]] [[1, 3, 5], [4, 8, 0], [7, 6, 2]]"
    by (rule slideI[of 1 _ 1 1 2]) (simp_all add: adjacent_def swap_cells_def)
  moreover have "slide [[1, 3, 5], [4, 8, 0], [7, 6, 2]] [[1, 3, 5], [4, 8, 2], [7, 6, 0]]"
    by (rule slideI[of 1 _ 2 2 2]) (simp_all add: adjacent_def swap_cells_def)
  moreover have "slide [[1, 3, 5], [4, 8, 2], [7, 6, 0]] [[1, 3, 5], [4, 8, 2], [7, 0, 6]]"
    by (rule slideI[of 2 _ 2 2 1]) (simp_all add: adjacent_def swap_cells_def)
  moreover have "slide [[1, 3, 5], [4, 8, 2], [7, 0, 6]] [[1, 3, 5], [4, 0, 2], [7, 8, 6]]"
    by (rule slideI[of 2 _ 1 1 1]) (simp_all add: adjacent_def swap_cells_def)
  moreover have "slide [[1, 3, 5], [4, 0, 2], [7, 8, 6]] [[1, 3, 5], [4, 2, 0], [7, 8, 6]]"
    by (rule slideI[of 1 _ 1 1 2]) (simp_all add: adjacent_def swap_cells_def)
  moreover have "slide [[1, 3, 5], [4, 2, 0], [7, 8, 6]] [[1, 3, 0], [4, 2, 5], [7, 8, 6]]"
    by (rule slideI[of 1 _ 2 0 2]) (simp_all add: adjacent_def swap_cells_def)
  moreover have "slide [[1, 3, 0], [4, 2, 5], [7, 8, 6]] [[1, 0, 3], [4, 2, 5], [7, 8, 6]]"
    by (rule slideI[of 0 _ 2 0 1]) (simp_all add: adjacent_def swap_cells_def)
  moreover have "slide [[1, 0, 3], [4, 2, 5], [7, 8, 6]] [[1, 2, 3], [4, 0, 5], [7, 8, 6]]"
    by (rule slideI[of 0 _ 1 1 1]) (simp_all add: adjacent_def swap_cells_def)
  moreover have "slide [[1, 2, 3], [4, 0, 5], [7, 8, 6]] [[1, 2, 3], [4, 5, 0], [7, 8, 6]]"
    by (rule slideI[of 1 _ 1 1 2]) (simp_all add: adjacent_def swap_cells_def)
  moreover have "slide [[1, 2, 3], [4, 5, 0], [7, 8, 6]] [[1, 2, 3], [4, 5, 6], [7, 8, 0]]"
    by (rule slideI[of 1 _ 2 2 2]) (simp_all add: adjacent_def swap_cells_def)
  ultimately show ?thesis by simp
qed

lemma failing_board_valid: "valid_board 3 [[1, 3, 5], [4, 0, 8], [7, 6, 2]]"
  by (simp add: valid_board_def upt_rec)

lemma failing_board_manhattan:
  "manhattan_sum 3 [[1, 3, 5], [4, 0, 8], [7, 6, 2]] = 10"
proof -
  let ?s = "PuzzleState [[1, 3, 5], [4, 0, 8], [7, 6, 2]] None None 0 0"
  have "manhattan_distance ?s = Inr 10" by code_simp
  moreover have "manhattan_distance ?s = Inr (manhattan_sum 3 (board ?s))"
    by (rule manhattan_distance_valid) (simp_all add: failing_board_valid)
  ultimately show ?thesis by simp
qed

lemma failing_board_bfs:
  "\<exists>r. bfs_solve (PuzzleState [[1, 3, 5], [4, 0, 8], [7, 6, 2]] None None 0 0) = Inr r
      \<and> map_of r ''success'' = Some (JBool True)
      \<and> map_of r ''solution_depth'' = Some (JInt 10)"
proof -
  let ?s = "PuzzleState [[1, 3, 5], [4, 0, 8], [7, 6, 2]] None None 0 0"
  let ?p = "[[[1, 3, 5], [4, 0, 8], [7, 6, 2]],
      [[1, 3, 5], [4, 8, 0], [7, 6, 2]],
      [[1, 3, 5], [4, 8, 2], [7, 6, 0]],
      [[1, 3, 5], [4, 8, 2], [7, 0, 6]],
      [[1, 3, 5], [4, 0, 2], [7, 8, 6]],
      [[1, 3, 5], [4, 2, 0], [7, 8, 6]],
      [[1, 3, 0], [4, 2, 5], [7, 8, 6]],
      [[1, 0, 3], [4, 2, 5], [7, 8, 6]],
      [[1, 2, 3], [4, 0, 5], [7, 8, 6]],
      [[1, 2, 3], [4, 5, 0], [7, 8, 6]],
      [[1, 2, 3], [4, 5, 6], [7, 8, 0 :: int]]]"
  have v: "valid_board 3 (board ?s)" using failing_board_valid by simp
  have g: "get_goal_state ?s = [[1, 2, 3], [4, 5, 6], [7, 8, 0]]" by code_simp
  have hyp: "?p \<noteq> [] \<and> hd ?p = board ?s \<and> last ?p = get_goal_state ?s \<and> slide_path ?p"
    using ten_move_path g by simp
  have n3: "(3::nat) = 2 \<or> (3::nat) = 3" by simp
  have par: "parent ?s = None" by simp
  from bfs_solve_shortest[OF n3 v par hyp]
  obtain r path where r: "bfs_solve ?s = Inr r" "map_of r ''success'' = Some (JBool True)"
    "map_of r ''solution_depth'' = Some (JInt (int (length path) - 1))"
    "path \<noteq> []" "hd path = board ?s" "last path = get_goal_state ?s" "slide_path path"
    and least: "\<forall>p'. p' \<noteq> [] \<and> hd p' = board ?s \<and> last p' = get_goal_state ?s
          \<and> slide_path p' \<longrightarrow> length path \<le> length p'"
    by blast
  from least hyp have "length path \<le> length ?p" by blast
  then have le: "length path \<le> 11" by simp
  have "manhattan_sum 3 (hd path) \<le> manhattan_sum 3 (last path) + int (length path) - 1"
    using r(4,5,7) v by (intro slide_path_manhattan) simp_all
  moreover have "manhattan_sum 3 (last path) = 0"
    using manhattan_sum_goal[of 3] r(6) g by (simp add: goal_board_def goal3_def)
  ultimately have "10 \<le> int (length path) - 1"
    using r(5) failing_board_manhattan by simp
  moreover have "int (length path) - 1 \<le> 10" using le by simp
  ultimately have "int (length path) - 1 = 10" by linarith
  with r show ?thesis by auto
qed

text \<open>
  Claim C2: a board on which the code does not do what the claim says.  On the solvable board
  \<open>[[1, 3, 5], [4, 0, 8], [7, 6, 2]]\<close> breadth-first search returns \<open>solution_depth\<close> 10,
  which is optimal, and A* returns \<open>success\<close> true with \<open>solution_depth\<close> 12: its path
  reaches the board \<open>[[1, 3, 5], [4, 2, 0], [7, 8, 6]]\<close> after 7 moves, and 5 moves suffice.
\<close>

theorem astar_returns_longer_path:
  "(\<exists>r. bfs_solve (PuzzleState [[1, 3, 5], [4, 0, 8], [7, 6, 2]] None None 0 0) = Inr r
         \<and> map_of r ''success'' = Some (JBool True)
         \<and> map_of r ''solution_depth'' = Some (JInt 10))
   \<and> (\<exists>r. astar_solve (PuzzleState [[1, 3, 5], [4, 0, 8], [7, 6, 2]] None None 0 0) = Inr r
         \<and> map_of r ''success'' = Some (JBool True)
         \<and> map_of r ''solution_depth'' = Some (JInt 12)
         \<and> map_of r ''solution_path'' = Some (JPath
              [[[1, 3, 5], [4, 0, 8], [7, 6, 2]],
               [[1, 3, 5], [4, 6, 8], [7, 0, 2]],
               [[1, 3, 5], [4, 6, 8], [7, 2, 0]],
               [[1, 3, 5], [4, 6, 0], [7, 2, 8]],
               [[1, 3, 5], [4, 0, 6], [7, 2, 8]],
               [[1, 3, 5], [4, 2, 6], [7, 0, 8]],
               [[1, 3, 5], [4, 2, 6], [7, 8, 0]],
               [[1, 3, 5], [4, 2, 0], [7, 8, 6]],
               [[1, 3, 0], [4, 2, 5], [7, 8, 6]],
               [[1, 0, 3], [4, 2, 5], [7, 8, 6]],
               [[1, 2, 3], [4, 0, 5], [7, 8, 6]],
               [[1, 2, 3], [4, 5, 0], [7, 8, 6]],
               [[1, 2, 3], [4, 5, 6], [7, 8, 0]]]))"
proof -
  have "astar_solve (PuzzleState [[1, 3, 5], [4, 0, 8], [7, 6, 2]] None None 0 0)
     = Inr (search_success ''A*'' ''max_queue_size''
        [[[1, 3, 5], [4, 0, 8], [7, 6, 2]],
         [[1, 3, 5], [4, 6, 8], [7, 0, 2]],
         [[1, 3, 5], [4, 6, 8], [7, 2, 0]],
         [[1, 3, 5], [4, 6, 0], [7, 2, 8]],
         [[1, 3, 5], [4, 0, 6], [7, 2, 8]],
         [[1, 3, 5], [4, 2, 6], [7, 0, 8]],
         [[1, 3, 5], [4, 2, 6], [7, 8, 0]],
         [[1, 3, 5], [4, 2, 0], [7, 8, 6]],
         [[1, 3, 0], [4, 2, 5], [7, 8, 6]],
         [[1, 0, 3], [4, 2, 5], [7, 8, 6]],
         [[1, 2, 3], [4, 0, 5], [7, 8, 6]],
         [[1, 2, 3], [4, 5, 0], [7, 8, 6]],
         [[1, 2, 3], [4, 5, 6], [7, 8, 0]]] 21 18)"
    by code_simp
  then show ?thesis
    using failing_board_bfs by (simp add: search_success_def)
qed

section \<open>Dispatch: what is constructed and what is called\<close>

lemma solve_puzzle_traced_result:
  "snd (solve_puzzle_traced initial_board algorithm) = solve_puzzle initial_board algorithm"
  unfolding solve_puzzle_traced_def solve_puzzle_def Let_def by simp

lemma solve_puzzle_traced_search:
  "Called name st \<in> set (solve_puzzle_events b algorithm) \<longleftrightarrow>
   \<not> malformed b \<and> st = PuzzleState_init b None None 0 0
   \<and> ((algorithm = ''BFS'' \<and> name = ''bfs_solve'')
      \<or> (algorithm = ''DFS'' \<and> name = ''dfs_solve'')
      \<or> (algorithm = ''A*'' \<and> name = ''astar_solve''))"
  unfolding solve_puzzle_events_def solve_puzzle_traced_def malformed_def Let_def by auto

text \<open>
  Claim C5, as amended.  When the board has an outer dimension other than 2 or 3, or a row
  whose length differs from the outer dimension, or when the algorithm name is none of
  \<open>BFS\<close>, \<open>DFS\<close>, \<open>A*\<close>, \<open>solve_puzzle\<close> returns one of its three error records:
  \<open>success\<close> is false, \<open>error\<close> is a non-empty string, there is no \<open>solution_path\<close>
  and no \<open>nodes_expanded\<close> key, and no search function is called.  For the two shape
  violations no state is constructed.  For an unknown algorithm name on a board that passes
  the two shape checks exactly one state is constructed, the initial state, and it is never
  handed to a search.
\<close>

theorem solve_puzzle_rejects:
  assumes "malformed b \<or> algorithm \<notin> set [''BFS'', ''DFS'', ''A*'']"
  shows "snd (solve_puzzle_traced b algorithm) = solve_puzzle b algorithm
      \<and> solve_puzzle_events b algorithm = fst (solve_puzzle_traced b algorithm)
      \<and> (\<exists>r msg. solve_puzzle b algorithm = Inr r
          \<and> r = (if length b \<notin> set [2, 3] then size_error (length b)
                  else if (\<exists>row \<in> set b. length row \<noteq> length b) then row_error (length b)
                  else algorithm_error algorithm)
          \<and> map_of r ''success'' = Some (JBool False)
          \<and> map_of r ''error'' = Some (JStr msg) \<and> msg \<noteq> []
          \<and> map_of r ''solution_path'' = None
          \<and> map_of r ''nodes_expanded'' = None)
      \<and> (\<forall>name st. Called name st \<notin> set (solve_puzzle_events b algorithm))
      \<and> (malformed b \<longrightarrow> solve_puzzle_events b algorithm = [])
      \<and> (\<not> malformed b \<longrightarrow>
            solve_puzzle_events b algorithm = [Constructed (PuzzleState_init b None None 0 0)])"
proof -
  have fields: "\<exists>msg. map_of r ''success'' = Some (JBool False)
      \<and> map_of r ''error'' = Some (JStr msg) \<and> msg \<noteq> []
      \<and> map_of r ''solution_path'' = None \<and> map_of r ''nodes_expanded'' = None"
    if "r \<in> {size_error (length b), row_error (length b), algorithm_error algorithm}" for r
  proof -
    from that consider "r = size_error (length b)" | "r = row_error (length b)"
      | "r = algorithm_error algorithm" by blast
    then show ?thesis
    proof cases
      case 1 then show ?thesis unfolding size_error_def by simp
    next
      case 2 then show ?thesis unfolding row_error_def by simp
    next
      case 3 then show ?thesis unfolding algorithm_error_def by simp
    qed
  qed
  let ?r = "if length b \<notin> set [2, 3] then size_error (length b)
            else if (\<exists>row \<in> set b. length row \<noteq> length b) then row_error (length b)
            else algorithm_error algorithm"
  have names: "algorithm \<noteq> ''BFS'' \<and> algorithm \<noteq> ''DFS'' \<and> algorithm \<noteq> ''A*''"
    if "\<not> malformed b"
    using assms that by auto
  have res: "solve_puzzle b algorithm = Inr ?r"
  proof (cases "malformed b")
    case True
    then show ?thesis unfolding solve_puzzle_def malformed_def Let_def by auto
  next
    case False
    with names[OF False] show ?thesis unfolding solve_puzzle_def malformed_def Let_def by auto
  qed
  have "?r \<in> {size_error (length b), row_error (length b), algorithm_error algorithm}" by simp
  from fields[OF this] obtain msg where f: "map_of ?r ''success'' = Some (JBool False)"
    "map_of ?r ''error'' = Some (JStr msg)" "msg \<noteq> []"
    "map_of ?r ''solution_path'' = None" "map_of ?r ''nodes_expanded'' = None" by blast
  have no_call: "\<forall>name st. Called name st \<notin> set (solve_puzzle_events b algorithm)"
  proof (intro allI)
    fix name st
    show "Called name st \<notin> set (solve_puzzle_events b algorithm)"
      using assms unfolding solve_puzzle_traced_search by auto
  qed
  have ev1: "malformed b \<longrightarrow> solve_puzzle_events b algorithm = []"
    unfolding solve_puzzle_events_def solve_puzzle_traced_def malformed_def Let_def by auto
  have ev2: "\<not> malformed b \<longrightarrow>
      solve_puzzle_events b algorithm = [Constructed (PuzzleState_init b None None 0 0)]"
  proof
    assume nm: "\<not> malformed b"
    with names[OF nm] show "solve_puzzle_events b algorithm
        = [Constructed (PuzzleState_init b None None 0 0)]"
      unfolding solve_puzzle_events_def solve_puzzle_traced_def malformed_def Let_def by auto
  qed
  have ex: "\<exists>r msg. solve_puzzle b algorithm = Inr r \<and> r = ?r
          \<and> map_of r ''success'' = Some (JBool False)
          \<and> map_of r ''error'' = Some (JStr msg) \<and> msg \<noteq> []
          \<and> map_of r ''solution_path'' = None
          \<and> map_of r ''nodes_expanded'' = None"
    using res f by blast
  show ?thesis
    using solve_puzzle_traced_result[of b algorithm] ex no_call ev1 ev2
    by (simp add: solve_puzzle_events_def)
qed

theorem solve_puzzle_rejects_witness:
  "malformed [[1, 2, 3, 4], [5, 6, 7, 8], [9, 10, 11, 12], [13, 14, 15, 0]]
   \<and> solve_puzzle [[1, 2, 3, 4], [5, 6, 7, 8], [9, 10, 11, 12], [13, 14, 15, 0]] ''BFS''
       = Inr (size_error (length [[1, 2, 3, 4], [5, 6, 7, 8], [9, 10, 11, 12], [13, 14, 15, 0 :: int]]))
   \<and> solve_puzzle_events [[1, 2, 3, 4], [5, 6, 7, 8], [9, 10, 11, 12], [13, 14, 15, 0]] ''BFS'' = []
   \<and> \<not> malformed [[1, 2], [0, 3]] \<and> ''Dijkstra'' \<notin> set [''BFS'', ''DFS'', ''A*'']
   \<and> solve_puzzle [[1, 2], [0, 3]] ''Dijkstra'' = Inr (algorithm_error ''Dijkstra'')
   \<and> solve_puzzle_events [[1, 2], [0, 3]] ''Dijkstra''
       = [Constructed (PuzzleState_init [[1, 2], [0, 3]] None None 0 0)]"
proof -
  let ?b4 = "[[1, 2, 3, 4], [5, 6, 7, 8], [9, 10, 11, 12], [13, 14, 15, 0 :: int]]"
  let ?b2 = "[[1, 2], [0, 3 :: int]]"
  have m4: "malformed ?b4" by (simp add: malformed_def)
  have m2: "\<not> malformed ?b2" by (simp add: malformed_def)
  have nm: "''Dijkstra'' \<notin> set [''BFS'', ''DFS'', ''A*'']" by simp
  from solve_puzzle_rejects[of ?b4 "''BFS''"] m4
  have a: "solve_puzzle ?b4 ''BFS'' = Inr (size_error (length ?b4))"
    "solve_puzzle_events ?b4 ''BFS'' = []" by auto
  from solve_puzzle_rejects[of ?b2 "''Dijkstra''"] m2 nm
  have b: "solve_puzzle ?b2 ''Dijkstra'' = Inr (algorithm_error ''Dijkstra'')"
    "solve_puzzle_events ?b2 ''Dijkstra'' = [Constructed (PuzzleState_init ?b2 None None 0 0)]"
    by auto
  from m4 m2 nm a b show ?thesis by blast
qed

text \<open>
  Claim C5 as stated fails on a well-shaped board with an unknown algorithm name: the
  initial state is constructed before the name is compared, although no search runs.
\<close>

theorem solve_puzzle_unknown_algorithm_constructs_state:
  "\<not> malformed [[1, 2], [3, 0]] \<and> ''IDA*'' \<notin> set [''BFS'', ''DFS'', ''A*'']
   \<and> solve_puzzle_traced [[1, 2], [3, 0]] ''IDA*''
       = ([Constructed (PuzzleState [[1, 2], [3, 0]] None None 0 0)],
          solve_puzzle [[1, 2], [3, 0]] ''IDA*'')
   \<and> solve_puzzle [[1, 2], [3, 0]] ''IDA*'' = Inr (algorithm_error ''IDA*'')
   \<and> solve_puzzle_events [[1, 2], [3, 0]] ''IDA*''
       = [Constructed (PuzzleState [[1, 2], [3, 0]] None None 0 0)]"
  by (simp add: malformed_def solve_puzzle_def solve_puzzle_events_def solve_puzzle_traced_def
        Let_def PuzzleState_init_def)

section \<open>Boards without a blank: which exception\<close>

lemma manhattan_cols_KeyError:
  "\<forall>j \<in> set js. j < length row \<Longrightarrow>
   \<exists>j \<in> set js. row ! j \<noteq> 0 \<and> map_of tbl (row ! j) = None \<Longrightarrow>
   manhattan_cols tbl row i js d = Inl KeyError"
proof (induction js arbitrary: d)
  case Nil then show ?case by simp
next
  case (Cons j js)
  show ?case
  proof (cases "row ! j \<noteq> 0 \<and> map_of tbl (row ! j) = None")
    case True
    with Cons.prems show ?thesis by simp
  next
    case False
    with Cons.prems have rest: "\<exists>j \<in> set js. row ! j \<noteq> 0 \<and> map_of tbl (row ! j) = None"
      by auto
    have "manhattan_cols tbl row i js d' = Inl KeyError" for d'
      using Cons.prems(1) rest by (intro Cons.IH) simp_all
    with False Cons.prems(1) show ?thesis by (auto simp: Let_def split: option.splits)
  qed
qed

lemma manhattan_rows_KeyError:
  "\<forall>i \<in> set is. i < length b \<and> (\<forall>j < n. j < length (b ! i)) \<Longrightarrow>
   \<exists>i \<in> set is. \<exists>j < n. b ! i ! j \<noteq> 0 \<and> map_of tbl (b ! i ! j) = None \<Longrightarrow>
   manhattan_rows tbl b n is d = Inl KeyError"
proof (induction "is" arbitrary: d)
  case Nil then show ?case by simp
next
  case (Cons i "is")
  have shape: "\<forall>j \<in> set [0..<n]. j < length (b ! i)" using Cons.prems(1) by simp
  show ?case
  proof (cases "\<exists>j < n. b ! i ! j \<noteq> 0 \<and> map_of tbl (b ! i ! j) = None")
    case True
    then have "\<exists>j \<in> set [0..<n]. b ! i ! j \<noteq> 0 \<and> map_of tbl (b ! i ! j) = None" by auto
    from manhattan_cols_KeyError[OF shape this] Cons.prems(1) show ?thesis by simp
  next
    case False
    with Cons.prems(2) have rest:
      "\<exists>i \<in> set is. \<exists>j < n. b ! i ! j \<noteq> 0 \<and> map_of tbl (b ! i ! j) = None" by auto
    have "manhattan_rows tbl b n is d' = Inl KeyError" for d'
      using Cons.prems(1) rest by (intro Cons.IH) simp_all
    moreover have "manhattan_cols tbl (b ! i) i [0..<n] d = Inl KeyError
        \<or> (\<exists>v. manhattan_cols tbl (b ! i) i [0..<n] d = Inr v)"
      by (rule manhattan_cols_shape[OF shape])
    ultimately show ?thesis using Cons.prems(1) by auto
  qed
qed

lemma manhattan_distance_no_blank:
  assumes "shape_valid (board s)" "no_blank (board s)"
  shows "manhattan_distance s
     = (if tiles_have_goal (board s)
        then Inr (sum_list (map (\<lambda>i. sum_list
          (map (\<lambda>j. tile_distance (goal_positions s) i j (board s ! i ! j)) [0..<size_of s]))
          [0..<size_of s]))
        else Inl KeyError)"
proof -
  let ?b = "board s" and ?n = "size_of s" and ?tbl = "goal_positions s"
  have len: "length ?b = ?n" by (simp add: size_of_def)
  have rows: "\<And>i. i < ?n \<Longrightarrow> length (?b ! i) = ?n"
    using assms(1) by (simp add: shape_valid_def size_of_def)
  have tbl: "?tbl = (if length ?b = 2 then goal_positions2 else goal_positions3)"
    by (simp add: goal_positions_def size_of_def)
  have cells: "tiles_have_goal ?b \<longleftrightarrow> (\<forall>i < ?n. \<forall>j < ?n. map_of ?tbl (?b ! i ! j) \<noteq> None)"
  proof
    assume t: "tiles_have_goal ?b"
    show "\<forall>i < ?n. \<forall>j < ?n. map_of ?tbl (?b ! i ! j) \<noteq> None"
    proof (intro allI impI)
      fix i j assume ij: "i < ?n" "j < ?n"
      then have "?b ! i \<in> set ?b" "?b ! i ! j \<in> set (?b ! i)" using len rows by simp_all
      with t show "map_of ?tbl (?b ! i ! j) \<noteq> None" unfolding tiles_have_goal_def tbl by blast
    qed
  next
    assume a: "\<forall>i < ?n. \<forall>j < ?n. map_of ?tbl (?b ! i ! j) \<noteq> None"
    show "tiles_have_goal ?b"
      unfolding tiles_have_goal_def tbl[symmetric]
    proof (intro ballI)
      fix row tile assume "row \<in> set ?b" "tile \<in> set row"
      then obtain i j where "i < length ?b" "?b ! i = row" "j < length row" "row ! j = tile"
        by (metis in_set_conv_nth)
      with a len rows show "map_of ?tbl tile \<noteq> None" by auto
    qed
  qed
  have nz: "\<And>i j. i < ?n \<Longrightarrow> j < ?n \<Longrightarrow> ?b ! i ! j \<noteq> 0"
  proof -
    fix i j assume ij: "i < ?n" "j < ?n"
    then have "?b ! i \<in> set ?b" "?b ! i ! j \<in> set (?b ! i)" using len rows by simp_all
    with assms(2) show "?b ! i ! j \<noteq> 0" unfolding no_blank_def by metis
  qed
  show ?thesis
  proof (cases "tiles_have_goal ?b")
    case True
    have "manhattan_rows ?tbl ?b ?n [0..<?n] 0 = Inr (0 + sum_list (map (\<lambda>i. sum_list (map (\<lambda>j. tile_distance (goal_positions s) i j (board s ! i ! j)) [0..<size_of s])) [0..<size_of s]))"
      by (rule manhattan_rows_sum) (use True cells len rows in auto)
    with True show ?thesis by (simp add: manhattan_distance_def)
  next
    case False
    then have "\<not> (\<forall>i < ?n. \<forall>j < ?n. map_of ?tbl (?b ! i ! j) \<noteq> None)"
      unfolding cells .
    then have "\<exists>i j. i < ?n \<and> j < ?n \<and> map_of ?tbl (?b ! i ! j) = None" by meson
    then obtain i j where ij: "i < ?n" "j < ?n" "?b ! i ! j \<noteq> 0"
        "map_of ?tbl (?b ! i ! j) = None"
      using nz by blast
    from ij(1) have "i \<in> set [0..<?n]" by simp
    with ij have bad: "\<exists>i \<in> set [0..<?n]. \<exists>j < ?n. ?b ! i ! j \<noteq> 0 \<and> map_of ?tbl (?b ! i ! j) = None"
      by blast
    have "manhattan_rows ?tbl ?b ?n [0..<?n] 0 = Inl KeyError"
      by (rule manhattan_rows_KeyError[OF _ bad]) (use len rows in auto)
    with False show ?thesis by (simp add: manhattan_distance_def)
  qed
qed

lemma astar_solve_no_blank_exact:
  assumes "shape_valid (board s)" "no_blank (board s)"
  shows "astar_solve s = (if tiles_have_goal (board s) then Inl TypeError else Inl KeyError)"
proof -
  have rows: "\<forall>row \<in> set (board s). length row = length (board s)"
    using assms(1) by (simp add: shape_valid_def)
  show ?thesis
  proof (cases "tiles_have_goal (board s)")
    case False
    with manhattan_distance_no_blank[OF assms] show ?thesis
      by (simp add: astar_solve_def)
  next
    case True
    with manhattan_distance_no_blank[OF assms] obtain h where
      h: "manhattan_distance s = Inr h" by auto
    have g: "get_successors (set_cost s h) = Inl TypeError"
      using rows assms(2) by (intro get_successors_no_blank) simp_all
    have ng: "\<not> is_goal s" by (rule no_blank_not_goal[OF assms(2)])
    have pop: "heappop [(cost (set_cost s h), cost (set_cost s h), set_cost s h)] =
      Inr ((cost (set_cost s h), cost (set_cost s h), set_cost s h), [])"
      by (simp add: heappop_def)
    from True show ?thesis
      by (simp add: astar_solve_def h Let_def astar_loop.simps[of "[x]" for x] pop g ng)
  qed
qed

text \<open>
  Claim C10, as amended.  On a board of valid shape (2 or 3 rows, every row as long as the
  board) in which no cell holds 0 (such a board is never the canonical goal),
  \<open>find_empty\<close> returns \<open>None\<close> and \<open>solve_puzzle\<close> returns no result at all for any of
  the three algorithms.  Breadth-first and depth-first search raise the \<open>TypeError\<close> of
  unpacking \<open>None\<close> in \<open>get_successors\<close>.  A* raises that same \<open>TypeError\<close> exactly when
  every tile has an entry in the table of goal positions; otherwise \<open>manhattan_distance\<close>
  raises \<open>KeyError\<close> on the initial state and that is what \<open>solve_puzzle\<close> raises.
\<close>

theorem solve_puzzle_no_blank_raises:
  assumes "shape_valid b" and "no_blank b" and "algorithm \<in> set [''BFS'', ''DFS'', ''A*'']"
  shows "find_empty (PuzzleState_init b None None 0 0) = Inr None
     \<and> get_successors (PuzzleState_init b None None 0 0) = Inl TypeError
     \<and> \<not> is_goal (PuzzleState_init b None None 0 0)
     \<and> (algorithm \<noteq> ''A*'' \<longrightarrow> solve_puzzle b algorithm = Inl TypeError)
     \<and> (algorithm = ''A*'' \<and> tiles_have_goal b \<longrightarrow>
          (\<exists>h. manhattan_distance (PuzzleState_init b None None 0 0) = Inr h)
          \<and> solve_puzzle b algorithm = Inl TypeError)
     \<and> (algorithm = ''A*'' \<and> \<not> tiles_have_goal b \<longrightarrow>
          manhattan_distance (PuzzleState_init b None None 0 0) = Inl KeyError
          \<and> solve_puzzle b algorithm = Inl KeyError)"
proof -
  let ?s = "PuzzleState_init b None None 0 0"
  have rows: "\<forall>row \<in> set (board ?s). length row = length (board ?s)"
    using assms(1) by (simp add: shape_valid_def)
  have sv: "shape_valid (board ?s)" using assms(1) by simp
  have nb: "no_blank (board ?s)" using assms(2) by simp
  have shape: "length b \<in> set [2, 3]" "\<not> (\<exists>row \<in> set b. length row \<noteq> length b)"
    using assms(1) by (auto simp: shape_valid_def)
  have sp: "solve_puzzle b algorithm =
      (if algorithm = ''BFS'' then bfs_solve ?s
       else if algorithm = ''DFS'' then dfs_solve ?s 50
       else if algorithm = ''A*'' then astar_solve ?s
       else Inr (algorithm_error algorithm))"
    using shape unfolding solve_puzzle_def Let_def by simp
  have bfs: "bfs_solve ?s = Inl TypeError" by (rule bfs_solve_no_blank[OF rows nb])
  have dfs: "dfs_solve ?s 50 = Inl TypeError" by (rule dfs_solve_no_blank[OF rows nb]) simp
  have ast: "astar_solve ?s = (if tiles_have_goal b then Inl TypeError else Inl KeyError)"
    using astar_solve_no_blank_exact[OF sv nb] by simp
  have md: "manhattan_distance ?s
     = (if tiles_have_goal b
        then Inr (sum_list (map (\<lambda>i. sum_list
          (map (\<lambda>j. tile_distance (goal_positions ?s) i j (board ?s ! i ! j)) [0..<size_of ?s]))
          [0..<size_of ?s]))
        else Inl KeyError)"
    using manhattan_distance_no_blank[OF sv nb] by simp
  have fe: "find_empty ?s = Inr None" by (rule find_empty_no_blank[OF rows nb])
  have gs: "get_successors ?s = Inl TypeError" by (rule get_successors_no_blank[OF rows nb])
  have ng: "\<not> is_goal ?s" by (rule no_blank_not_goal[OF nb])
  show ?thesis using assms(3) fe gs ng bfs dfs ast md unfolding sp by auto
qed

theorem solve_puzzle_no_blank_raises_witness:
  "shape_valid [[1, 2], [3, 3]] \<and> no_blank [[1, 2], [3, 3]] \<and> tiles_have_goal [[1, 2], [3, 3]]
   \<and> ''A*'' \<in> set [''BFS'', ''DFS'', ''A*'']
   \<and> solve_puzzle [[1, 2], [3, 3]] ''A*'' = Inl TypeError
   \<and> solve_puzzle [[1, 2], [3, 3]] ''DFS'' = Inl TypeError
   \<and> shape_valid [[4, 2], [3, 3]] \<and> no_blank [[4, 2], [3, 3]] \<and> \<not> tiles_have_goal [[4, 2], [3, 3]]
   \<and> solve_puzzle [[4, 2], [3, 3]] ''A*'' = Inl KeyError
   \<and> solve_puzzle [[4, 2], [3, 3]] ''BFS'' = Inl TypeError"
proof -
  let ?b = "[[1, 2], [3, 3 :: int]]" and ?c = "[[4, 2], [3, 3 :: int]]"
  have b: "shape_valid ?b" "no_blank ?b" "tiles_have_goal ?b"
    by (simp_all add: shape_valid_def no_blank_def tiles_have_goal_def goal_positions2_def)
  have c: "shape_valid ?c" "no_blank ?c" "\<not> tiles_have_goal ?c"
    by (simp_all add: shape_valid_def no_blank_def tiles_have_goal_def goal_positions2_def)
  from solve_puzzle_no_blank_raises[OF b(1,2), of "''A*''"] b(3)
  have 1: "solve_puzzle ?b ''A*'' = Inl TypeError" by simp
  from solve_puzzle_no_blank_raises[OF b(1,2), of "''DFS''"]
  have 2: "solve_puzzle ?b ''DFS'' = Inl TypeError" by simp
  from solve_puzzle_no_blank_raises[OF c(1,2), of "''A*''"] c(3)
  have 3: "solve_puzzle ?c ''A*'' = Inl KeyError" by simp
  from solve_puzzle_no_blank_raises[OF c(1,2), of "''BFS''"]
  have 4: "solve_puzzle ?c ''BFS'' = Inl TypeError" by simp
  from b c 1 2 3 4 show ?thesis by simp
qed

text \<open>
  Claim C10 as stated fails for A* on the board \<open>[[1, 2], [3, 4]]\<close>: the exception is the
  \<open>KeyError\<close> raised by \<open>manhattan_distance\<close> on the initial state, before
  \<open>get_successors\<close> is ever called.
\<close>

theorem solve_puzzle_no_blank_counterexample:
  "shape_valid [[1, 2], [3, 4]] \<and> no_blank [[1, 2], [3, 4]]
   \<and> [[1, 2], [3, 4]] \<noteq> goal2
   \<and> manhattan_distance (PuzzleState_init [[1, 2], [3, 4]] None None 0 0) = Inl KeyError
   \<and> solve_puzzle [[1, 2], [3, 4]] ''A*'' = Inl KeyError
   \<and> solve_puzzle [[1, 2], [3, 4]] ''A*'' \<noteq> Inl TypeError"
  by (simp add: shape_valid_def no_blank_def goal2_def solve_puzzle_def Let_def astar_solve_def
        manhattan_distance_def size_of_def goal_positions_def goal_positions2_def
        PuzzleState_init_def)

section \<open>Depth-first search: the order in which children are popped\<close>

lemma dfs_loop_traced_snd:
  "snd (dfs_loop_traced stack visited n m depth_limit) = dfs_loop stack visited n m depth_limit"
proof (induction stack visited n m depth_limit rule: dfs_loop_traced.induct)
  case (1 stack visited n m depth_limit)
  show ?case
    by (subst dfs_loop_traced.simps, subst dfs_loop.simps)
       (auto split: sum.splits simp: 1)
qed

lemma dfs_loop_traced_counters:
  "fst (dfs_loop_traced stack visited n m depth_limit)
     = fst (dfs_loop_traced stack visited n' m' depth_limit)"
proof (induction stack visited n m depth_limit arbitrary: n' m' rule: dfs_loop_traced.induct)
  case (1 stack visited n m depth_limit)
  show ?case
    by (subst dfs_loop_traced.simps, subst (2) dfs_loop_traced.simps)
       (auto split: sum.splits intro: 1)
qed

lemma dfs_loop_traced_pops:
  "dfs_loop_traced stack visited n m depth_limit
     = (dfs_pops stack visited depth_limit, dfs_loop stack visited n m depth_limit)"
  unfolding dfs_pops_def
  using dfs_loop_traced_snd[of stack visited n m depth_limit]
    dfs_loop_traced_counters[of stack visited n m depth_limit 0 0]
  by (metis prod.collapse)

lemma dfs_loop_traced_fst:
  "fst (dfs_loop_traced stack visited n m depth_limit) = dfs_pops stack visited depth_limit"
  unfolding dfs_pops_def by (rule dfs_loop_traced_counters)

lemma dfs_pops_unfold:
  "dfs_pops stack visited depth_limit =
     (if stack = [] then []
      else if is_goal (last stack) then [last stack]
      else if depth (last stack) < depth_limit
      then (case get_successors (last stack) of
              Inl e \<Rightarrow> [last stack]
            | Inr successors \<Rightarrow>
                last stack # dfs_pops (fst (append_unvisited (rev successors) (butlast stack) visited))
                  (snd (append_unvisited (rev successors) (butlast stack) visited)) depth_limit)
      else last stack # dfs_pops (butlast stack) visited depth_limit)"
proof -
  have "dfs_pops stack visited depth_limit = fst (dfs_loop_traced stack visited 0 0 depth_limit)"
    by (simp add: dfs_pops_def)
  also have "\<dots> =
     (if stack = [] then []
      else if is_goal (last stack) then [last stack]
      else if depth (last stack) < depth_limit
      then (case get_successors (last stack) of
              Inl e \<Rightarrow> [last stack]
            | Inr successors \<Rightarrow>
                last stack # dfs_pops (fst (append_unvisited (rev successors) (butlast stack) visited))
                  (snd (append_unvisited (rev successors) (butlast stack) visited)) depth_limit)
      else last stack # dfs_pops (butlast stack) visited depth_limit)"
    by (subst dfs_loop_traced.simps) (auto split: sum.splits simp: dfs_loop_traced_fst)
  finally show ?thesis .
qed

lemma dfs_pops_empty [simp]: "dfs_pops [] visited depth_limit = []"
  by (subst dfs_pops_unfold) simp

lemma dfs_pops_goal:
  "stack \<noteq> [] \<Longrightarrow> is_goal (last stack) \<Longrightarrow> dfs_pops stack visited depth_limit = [last stack]"
  by (subst dfs_pops_unfold) simp

lemma dfs_pops_error:
  "stack \<noteq> [] \<Longrightarrow> \<not> is_goal (last stack) \<Longrightarrow> depth (last stack) < depth_limit \<Longrightarrow>
   get_successors (last stack) = Inl e \<Longrightarrow> dfs_pops stack visited depth_limit = [last stack]"
  by (subst dfs_pops_unfold) simp

lemma dfs_pops_expand:
  "stack \<noteq> [] \<Longrightarrow> \<not> is_goal (last stack) \<Longrightarrow> depth (last stack) < depth_limit \<Longrightarrow>
   get_successors (last stack) = Inr successors \<Longrightarrow>
   dfs_pops stack visited depth_limit
     = last stack # dfs_pops (fst (append_unvisited (rev successors) (butlast stack) visited))
         (snd (append_unvisited (rev successors) (butlast stack) visited)) depth_limit"
  by (subst dfs_pops_unfold) simp

lemma dfs_pops_cutoff:
  "stack \<noteq> [] \<Longrightarrow> \<not> is_goal (last stack) \<Longrightarrow> \<not> depth (last stack) < depth_limit \<Longrightarrow>
   dfs_pops stack visited depth_limit = last stack # dfs_pops (butlast stack) visited depth_limit"
  by (subst dfs_pops_unfold) simp

lemma dfs_pops_induct [case_names step]:
  assumes "\<And>stack visited depth_limit.
     (\<And>successors. stack \<noteq> [] \<Longrightarrow> \<not> is_goal (last stack) \<Longrightarrow> depth (last stack) < depth_limit \<Longrightarrow>
        get_successors (last stack) = Inr successors \<Longrightarrow>
        P (fst (append_unvisited (rev successors) (butlast stack) visited))
          (snd (append_unvisited (rev successors) (butlast stack) visited)) depth_limit) \<Longrightarrow>
     (stack \<noteq> [] \<Longrightarrow> \<not> is_goal (last stack) \<Longrightarrow> \<not> depth (last stack) < depth_limit \<Longrightarrow>
        P (butlast stack) visited depth_limit) \<Longrightarrow>
     P stack visited depth_limit"
  shows "P stack visited depth_limit"
proof -
  have "P stack visited depth_limit" if "n = n" for n m :: int
    using that
  proof (induction stack visited n m depth_limit rule: dfs_loop_traced.induct)
    case (1 stack visited n m depth_limit)
    show ?case
      by (rule assms) (use 1 in auto)
  qed
  then show ?thesis by simp
qed

lemma dfs_loop_nodes_expanded:
  "dfs_loop stack visited n m depth_limit = Inr r \<Longrightarrow>
   map_of r ''nodes_expanded'' = Some (JInt (n + int (length (dfs_pops stack visited depth_limit))))"
proof (induction stack visited n m depth_limit rule: dfs_loop.induct)
  case (1 stack visited n m depth_limit)
  show ?case
  proof (cases "stack = []")
    case True
    with "1.prems" show ?thesis
      by (simp add: dfs_loop.simps[of "[]"] dfs_failure_def) auto
  next
    case ne: False
    show ?thesis
    proof (cases "is_goal (last stack)")
      case True
      with ne "1.prems" have "r = search_success ''DFS'' ''max_stack_size''
          (reconstruct_path (last stack)) (n + 1) (max m (int (length stack)))"
        by (subst (asm) dfs_loop.simps) simp
      with ne True show ?thesis by (simp add: dfs_pops_goal search_success_def)
    next
      case ng: False
      show ?thesis
      proof (cases "depth (last stack) < depth_limit")
        case True
        show ?thesis
        proof (cases "get_successors (last stack)")
          case (Inl e)
          with ne ng True "1.prems" show ?thesis by (subst (asm) dfs_loop.simps) simp
        next
          case (Inr successors)
          with ne ng True "1.prems" have
            "dfs_loop (fst (append_unvisited (rev successors) (butlast stack) visited))
               (snd (append_unvisited (rev successors) (butlast stack) visited))
               (n + 1) (max m (int (length stack))) depth_limit = Inr r"
            by (subst (asm) dfs_loop.simps) simp
          from "1.IH"(1)[OF ne ng True Inr this] show ?thesis
            by (simp add: dfs_pops_expand[OF ne ng True Inr])
        qed
      next
        case False
        with ne ng "1.prems" have
          "dfs_loop (butlast stack) visited (n + 1) (max m (int (length stack))) depth_limit = Inr r"
          by (subst (asm) dfs_loop.simps) simp
        from "1.IH"(2)[OF ne ng False this] show ?thesis
          by (simp add: dfs_pops_cutoff[OF ne ng False])
      qed
    qed
  qed
qed

lemma dfs_loop_success_last_pop:
  "dfs_loop stack visited n m depth_limit = Inr r \<Longrightarrow>
   map_of r ''success'' = Some (JBool True) \<Longrightarrow>
   dfs_pops stack visited depth_limit \<noteq> []
   \<and> is_goal (last (dfs_pops stack visited depth_limit))
   \<and> map_of r ''solution_path''
       = Some (JPath (reconstruct_path (last (dfs_pops stack visited depth_limit))))"
proof (induction stack visited n m depth_limit rule: dfs_loop.induct)
  case (1 stack visited n m depth_limit)
  show ?case
  proof (cases "stack = []")
    case True
    with "1.prems" show ?thesis
      by (simp add: dfs_loop.simps[of "[]"] dfs_failure_def) auto
  next
    case ne: False
    show ?thesis
    proof (cases "is_goal (last stack)")
      case True
      with ne "1.prems" have "r = search_success ''DFS'' ''max_stack_size''
          (reconstruct_path (last stack)) (n + 1) (max m (int (length stack)))"
        by (subst (asm) dfs_loop.simps) simp
      with ne True show ?thesis by (simp add: dfs_pops_goal search_success_def)
    next
      case ng: False
      show ?thesis
      proof (cases "depth (last stack) < depth_limit")
        case True
        show ?thesis
        proof (cases "get_successors (last stack)")
          case (Inl e)
          with ne ng True "1.prems" show ?thesis by (subst (asm) dfs_loop.simps) simp
        next
          case (Inr successors)
          with ne ng True "1.prems" have
            "dfs_loop (fst (append_unvisited (rev successors) (butlast stack) visited))
               (snd (append_unvisited (rev successors) (butlast stack) visited))
               (n + 1) (max m (int (length stack))) depth_limit = Inr r"
            by (subst (asm) dfs_loop.simps) simp
          from "1.IH"(1)[OF ne ng True Inr this "1.prems"(2)] show ?thesis
            by (simp add: dfs_pops_expand[OF ne ng True Inr])
        qed
      next
        case False
        with ne ng "1.prems" have
          "dfs_loop (butlast stack) visited (n + 1) (max m (int (length stack))) depth_limit = Inr r"
          by (subst (asm) dfs_loop.simps) simp
        from "1.IH"(2)[OF ne ng False this "1.prems"(2)] show ?thesis
          by (simp add: dfs_pops_cutoff[OF ne ng False])
      qed
    qed
  qed
qed

lemma append_unvisited_prefix:
  "append_unvisited xs (base @ q) vis
     = (base @ fst (append_unvisited xs q vis), snd (append_unvisited xs q vis))"
  by (induction xs q vis rule: append_unvisited.induct) simp_all

lemma dfs_pops_segment:
  "\<exists>rest. dfs_pops (base @ upper) visited depth_limit = dfs_pops upper visited depth_limit @ rest
     \<and> (rest = [] \<or> (\<exists>vis'. visited \<subseteq> vis' \<and> rest = dfs_pops base vis' depth_limit))"
proof (induction upper visited depth_limit rule: dfs_pops_induct)
  case (step upper visited depth_limit)
  show ?case
  proof (cases "upper = []")
    case True
    then show ?thesis by auto
  next
    case ne: False
    then have ne': "base @ upper \<noteq> []" and l: "last (base @ upper) = last upper"
      and b: "butlast (base @ upper) = base @ butlast upper"
      by (simp_all add: butlast_append)
    show ?thesis
    proof (cases "is_goal (last upper)")
      case True
      then show ?thesis using ne ne' l by (simp add: dfs_pops_goal)
    next
      case ng: False
      then have ng': "\<not> is_goal (last (base @ upper))" using l by simp
      show ?thesis
      proof (cases "depth (last upper) < depth_limit")
        case True
        then have d': "depth (last (base @ upper)) < depth_limit" using l by simp
        show ?thesis
        proof (cases "get_successors (last upper)")
          case (Inl e)
          then have "get_successors (last (base @ upper)) = Inl e" using l by simp
          from dfs_pops_error[OF ne' ng' d' this] dfs_pops_error[OF ne ng True Inl]
          show ?thesis using l by simp
        next
          case (Inr successors)
          then have g': "get_successors (last (base @ upper)) = Inr successors" using l by simp
          let ?r = "append_unvisited (rev successors) (butlast upper) visited"
          from step(1)[OF ne ng True Inr] obtain rest where
            rest: "dfs_pops (base @ fst ?r) (snd ?r) depth_limit
                = dfs_pops (fst ?r) (snd ?r) depth_limit @ rest"
              "rest = [] \<or> (\<exists>vis'. snd ?r \<subseteq> vis' \<and> rest = dfs_pops base vis' depth_limit)"
            by blast
          have "visited \<subseteq> snd ?r" by (rule append_unvisited_visited_mono)
          with rest(2) have r2:
            "rest = [] \<or> (\<exists>vis'. visited \<subseteq> vis' \<and> rest = dfs_pops base vis' depth_limit)"
            by blast
          have "dfs_pops (base @ upper) visited depth_limit
              = dfs_pops upper visited depth_limit @ rest"
            using dfs_pops_expand[OF ne' ng' d' g'] dfs_pops_expand[OF ne ng True Inr] rest(1) l
            by (simp add: b append_unvisited_prefix)
          with r2 show ?thesis by blast
        qed
      next
        case False
        then have d': "\<not> depth (last (base @ upper)) < depth_limit" using l by simp
        from step(2)[OF ne ng False] obtain rest where
          rest: "dfs_pops (base @ butlast upper) visited depth_limit
              = dfs_pops (butlast upper) visited depth_limit @ rest"
            "rest = [] \<or> (\<exists>vis'. visited \<subseteq> vis' \<and> rest = dfs_pops base vis' depth_limit)"
          by blast
        have "dfs_pops (base @ upper) visited depth_limit
            = dfs_pops upper visited depth_limit @ rest"
          using dfs_pops_cutoff[OF ne' ng' d'] dfs_pops_cutoff[OF ne ng False] rest(1) l
          by (simp add: b)
        with rest(2) show ?thesis by blast
      qed
    qed
  qed
qed

lemma dfs_pops_fresh:
  "x \<in> set (dfs_pops stack visited depth_limit) \<Longrightarrow> x \<in> set stack \<or> board x \<notin> visited"
proof (induction stack visited depth_limit rule: dfs_pops_induct)
  case (step stack visited depth_limit)
  show ?case
  proof (cases "stack = []")
    case True
    with step.prems show ?thesis by simp
  next
    case ne: False
    then have top: "last stack \<in> set stack" by simp
    show ?thesis
    proof (cases "is_goal (last stack)")
      case True
      with step.prems ne top show ?thesis by (simp add: dfs_pops_goal)
    next
      case ng: False
      show ?thesis
      proof (cases "depth (last stack) < depth_limit")
        case True
        show ?thesis
        proof (cases "get_successors (last stack)")
          case (Inl e)
          with step.prems ne ng True top show ?thesis by (simp add: dfs_pops_error)
        next
          case (Inr successors)
          let ?r = "append_unvisited (rev successors) (butlast stack) visited"
          from append_unvisited_new[of "rev successors" "butlast stack" visited]
          obtain pushed where p: "fst ?r = butlast stack @ pushed"
            "board ` set pushed = board ` set (rev successors) - visited" by blast
          have mono: "visited \<subseteq> snd ?r" by (rule append_unvisited_visited_mono)
          from step.prems dfs_pops_expand[OF ne ng True Inr]
          have "x = last stack \<or> x \<in> set (dfs_pops (fst ?r) (snd ?r) depth_limit)" by simp
          then show ?thesis
          proof
            assume "x = last stack" with top show ?thesis by simp
          next
            assume "x \<in> set (dfs_pops (fst ?r) (snd ?r) depth_limit)"
            from step.IH(1)[OF ne ng True Inr this]
            have "x \<in> set (butlast stack) \<or> x \<in> set pushed \<or> board x \<notin> snd ?r"
              using p(1) by auto
            then show ?thesis using set_butlast_subset[of stack] p(2) mono by blast
          qed
        qed
      next
        case False
        from step.prems dfs_pops_cutoff[OF ne ng False]
        have "x = last stack \<or> x \<in> set (dfs_pops (butlast stack) visited depth_limit)" by simp
        then show ?thesis
          using top step.IH(2)[OF ne ng False] set_butlast_subset[of stack] by blast
      qed
    qed
  qed
qed

lemma dfs_pops_single:
  "dfs_pops [c] visited depth_limit \<noteq> [] \<and> hd (dfs_pops [c] visited depth_limit) = c
   \<and> (\<forall>x \<in> set (tl (dfs_pops [c] visited depth_limit)). board x \<notin> visited)"
proof (cases "is_goal c")
  case True
  then show ?thesis by (simp add: dfs_pops_goal)
next
  case ng: False
  show ?thesis
  proof (cases "depth c < depth_limit")
    case True
    show ?thesis
    proof (cases "get_successors c")
      case (Inl e)
      with ng True show ?thesis by (simp add: dfs_pops_error)
    next
      case (Inr successors)
      let ?r = "append_unvisited (rev successors) [] visited"
      from append_unvisited_new[of "rev successors" "[]" visited]
      obtain pushed where p: "fst ?r = pushed"
        "board ` set pushed = board ` set (rev successors) - visited" by auto
      have mono: "visited \<subseteq> snd ?r" by (rule append_unvisited_visited_mono)
      have e: "dfs_pops [c] visited depth_limit = c # dfs_pops (fst ?r) (snd ?r) depth_limit"
        using dfs_pops_expand[of "[c]" depth_limit successors visited] ng True Inr by simp
      have "board x \<notin> visited" if "x \<in> set (dfs_pops (fst ?r) (snd ?r) depth_limit)" for x
        using dfs_pops_fresh[OF that] p mono by blast
      with e show ?thesis by simp
    qed
  next
    case False
    with ng show ?thesis using dfs_pops_cutoff[of "[c]" depth_limit visited] by simp
  qed
qed

lemma dfs_pops_children:
  "\<exists>ts rest. dfs_pops (base @ rev cs) visited depth_limit = concat ts @ rest
     \<and> map hd ts = take (length ts) cs
     \<and> (\<forall>t \<in> set ts. t \<noteq> [] \<and> (\<forall>x \<in> set (tl t). board x \<notin> visited))
     \<and> (length ts < length cs \<longrightarrow> rest = [])
     \<and> (rest = [] \<or> (\<exists>vis'. visited \<subseteq> vis' \<and> rest = dfs_pops base vis' depth_limit))"
proof (induction cs arbitrary: visited)
  case Nil
  show ?case
    by (rule exI[of _ "[]"], rule exI[of _ "dfs_pops base visited depth_limit"]) auto
next
  case (Cons c cs)
  let ?T = "dfs_pops [c] visited depth_limit"
  from dfs_pops_segment[of "base @ rev cs" "[c]" visited depth_limit] obtain rest1 where
    r1: "dfs_pops (base @ rev (c # cs)) visited depth_limit = ?T @ rest1"
      "rest1 = [] \<or> (\<exists>vis'. visited \<subseteq> vis' \<and> rest1 = dfs_pops (base @ rev cs) vis' depth_limit)"
    by auto
  note T = dfs_pops_single[of c visited depth_limit]
  show ?case
  proof (cases "rest1 = []")
    case True
    show ?thesis
      by (rule exI[of _ "[?T]"], rule exI[of _ "[]"]) (use r1(1) True T in auto)
  next
    case False
    with r1(2) obtain vis' where v: "visited \<subseteq> vis'"
      "rest1 = dfs_pops (base @ rev cs) vis' depth_limit" by blast
    from Cons.IH[of vis'] obtain ts rest where
      ih: "dfs_pops (base @ rev cs) vis' depth_limit = concat ts @ rest"
        "map hd ts = take (length ts) cs"
        "\<forall>t \<in> set ts. t \<noteq> [] \<and> (\<forall>x \<in> set (tl t). board x \<notin> vis')"
        "length ts < length cs \<longrightarrow> rest = []"
        "rest = [] \<or> (\<exists>vis''. vis' \<subseteq> vis'' \<and> rest = dfs_pops base vis'' depth_limit)"
      by blast
    have 1: "dfs_pops (base @ rev (c # cs)) visited depth_limit = concat (?T # ts) @ rest"
      using r1(1) v(2) ih(1) by simp
    have 2: "map hd (?T # ts) = take (length (?T # ts)) (c # cs)"
      using T ih(2) by simp
    have 3: "\<forall>t \<in> set (?T # ts). t \<noteq> [] \<and> (\<forall>x \<in> set (tl t). board x \<notin> visited)"
      using T ih(3) v(1) by auto
    have 4: "length (?T # ts) < length (c # cs) \<longrightarrow> rest = []"
      using ih(4) by simp
    have 5: "rest = [] \<or> (\<exists>vis''. visited \<subseteq> vis'' \<and> rest = dfs_pops base vis'' depth_limit)"
      using ih(5) v(1) by blast
    from 1 2 3 4 5 show ?thesis by blast
  qed
qed

lemma moves_names_distinct:
  "distinct (map (\<lambda>(dr, dc, move_name). Some move_name) (filter P moves))"
proof -
  have "distinct (map (\<lambda>(dr, dc, move_name). Some move_name) moves)"
    by (simp add: moves_def)
  then show ?thesis by (rule distinct_map_filter)
qed

lemma offset_name:
  fixes dr dc :: int
  shows "(dr, dc, nm) \<in> set [(-1, 0, a), (1, 0, b), (0, -1, c), (0, 1, d)] \<Longrightarrow>
   (dr, dc, nm') \<in> set [(-1, 0, a), (1, 0, b), (0, -1, c), (0, 1, d)] \<Longrightarrow> nm = nm'"
  by (simp, elim disjE conjE; simp)

lemma moves_offset_name:
  "(dr, dc, nm) \<in> set moves \<Longrightarrow> (dr, dc, nm') \<in> set moves \<Longrightarrow> nm = nm'"
  unfolding moves_def by (rule offset_name)

lemma get_successors_distinct:
  assumes v: "valid_board k (board s)" and g: "get_successors s = Inr successors"
  shows "distinct (map board successors)"
proof -
  from g obtain row col where fe: "find_empty s = Inr (Some (row, col))"
    and sl: "successors_loop s row col moves = Inr successors"
    by (auto simp: get_successors_def split: sum.splits option.splits)
  have "map move successors
      = map (\<lambda>(dr, dc, move_name). Some move_name) (filter (in_bounds s row col) moves)"
    by (rule successors_loop_moves[OF sl])
  then have dm: "distinct (map move successors)" by (simp add: moves_names_distinct)
  then have ds: "distinct successors" by (simp add: distinct_map)
  have len: "length (board s) = k" "\<And>i. i < k \<Longrightarrow> length (board s ! i) = k"
    using v by (auto simp: valid_board_def)
  have sz: "size_of s = k" using len by (simp add: size_of_def)
  from find_empty_Some[OF fe] have blank: "board s ! row ! col = 0" by simp
  have inj: "inj_on board (set successors)"
  proof (rule inj_onI)
    fix t1 t2 assume t: "t1 \<in> set successors" "t2 \<in> set successors" and e: "board t1 = board t2"
    from successors_loop_elem[OF sl t(1)] obtain dr1 dc1 nm1 where
      m1: "(dr1, dc1, nm1) \<in> set moves" "in_bounds s row col (dr1, dc1, nm1)"
        "swap_cells (board s) row col (nat (int row + dr1)) (nat (int col + dc1)) = Inr (board t1)"
        "t1 = PuzzleState_init (board t1) (Some s) (Some nm1) (depth s + 1) (cost s + 1)"
      by blast
    from successors_loop_elem[OF sl t(2)] obtain dr2 dc2 nm2 where
      m2: "(dr2, dc2, nm2) \<in> set moves" "in_bounds s row col (dr2, dc2, nm2)"
        "swap_cells (board s) row col (nat (int row + dr2)) (nat (int col + dc2)) = Inr (board t2)"
        "t2 = PuzzleState_init (board t2) (Some s) (Some nm2) (depth s + 1) (cost s + 1)"
      by blast
    let ?r1 = "nat (int row + dr1)" and ?c1 = "nat (int col + dc1)"
    let ?r2 = "nat (int row + dr2)" and ?c2 = "nat (int col + dc2)"
    have b1: "?r1 < k" "?c1 < k" "0 \<le> int row + dr1" "0 \<le> int col + dc1"
      using m1(2) sz by (auto simp: in_bounds_def)
    have b2: "?r2 < k" "?c2 < k" "0 \<le> int row + dr2" "0 \<le> int col + dc2"
      using m2(2) sz by (auto simp: in_bounds_def)
    have z1: "board t1 ! ?r1 ! ?c1 = 0"
      using swap_cells_nth[OF m1(3), of ?r1 ?c1] b1 len blank by simp
    have z2: "board t2 ! ?r2 ! ?c2 = 0"
      using swap_cells_nth[OF m2(3), of ?r2 ?c2] b2 len blank by simp
    have v1: "valid_board k (board t1)" by (rule valid_successor[OF v g t(1)])
    from valid_board_blank_unique[OF v1 b1(1,2) b2(1,2) z1] z2 e
    have "?r1 = ?r2 \<and> ?c1 = ?c2" by simp
    with b1 b2 have "dr1 = dr2" "dc1 = dc2" by auto
    with m1(1) m2(1) have "nm1 = nm2" using moves_offset_name by blast
    with m1(4) m2(4) e show "t1 = t2" by simp
  qed
  from ds inj show ?thesis by (simp add: distinct_map)
qed

lemma dfs_pushed_exact:
  assumes "distinct (map board successors)"
  shows "fst (append_unvisited (rev successors) q visited)
       = q @ rev (filter (\<lambda>s. board s \<notin> visited) successors)"
proof -
  from append_unvisited_pushed[of "rev successors" q visited] obtain pushed where
    p: "fst (append_unvisited (rev successors) q visited) = q @ pushed"
      "distinct (map board (rev successors)) \<longrightarrow>
         pushed = filter (\<lambda>s. board s \<notin> visited) (rev successors)"
    by blast
  have "distinct (map board (rev successors))" using assms by (metis distinct_rev rev_map)
  with p show ?thesis by (simp add: rev_filter)
qed

text \<open>
  Claim C7.  The successor function walks the table of moves in the order UP, DOWN, LEFT,
  RIGHT and emits a state for exactly the entries that stay on the board, in that order; on
  a puzzle board the successors' boards are pairwise distinct.  Depth-first search pops the
  top of the stack, and when it expands the popped state it pushes the reversed list of the
  successors not visited before.  The states popped after the expanded one are therefore:
  the first unvisited successor in the order UP, DOWN, LEFT, RIGHT, followed only by states
  with boards seen neither before nor among the successors; then the second unvisited
  successor, followed by such states; and so on, until the search stops or all children have
  been popped, and only then the rest of the stack.  The popped states are those of
  \<open>dfs_loop\<close>: their number is what the result reports as \<open>nodes_expanded\<close>, and on
  success the last of them is the goal state whose parent chain is the solution path.
\<close>

theorem dfs_canonical_order:
  "map (\<lambda>(dr, dc, move_name). move_name) moves = [''UP'', ''DOWN'', ''LEFT'', ''RIGHT'']
   \<and> (find_empty s = Inr (Some (row, col)) \<and> get_successors s = Inr succs \<longrightarrow>
        map move succs
          = map (\<lambda>(dr, dc, move_name). Some move_name) (filter (in_bounds s row col) moves))
   \<and> (valid_board k (board s) \<and> get_successors s = Inr succs \<longrightarrow> distinct (map board succs))
   \<and> dfs_loop_traced stack visited n m depth_limit
        = (dfs_pops stack visited depth_limit, dfs_loop stack visited n m depth_limit)
   \<and> dfs_solve initial_state depth_limit
        = snd (dfs_loop_traced [initial_state] {board initial_state} 0 0 depth_limit)
   \<and> (dfs_loop stack visited n m depth_limit = Inr r \<longrightarrow>
        map_of r ''nodes_expanded''
          = Some (JInt (n + int (length (dfs_pops stack visited depth_limit)))))
   \<and> (dfs_loop stack visited n m depth_limit = Inr r
        \<and> map_of r ''success'' = Some (JBool True) \<longrightarrow>
        dfs_pops stack visited depth_limit \<noteq> []
        \<and> is_goal (last (dfs_pops stack visited depth_limit))
        \<and> map_of r ''solution_path''
            = Some (JPath (reconstruct_path (last (dfs_pops stack visited depth_limit)))))
   \<and> (stack \<noteq> [] \<longrightarrow> hd (dfs_pops stack visited depth_limit) = last stack)
   \<and> (stack \<noteq> [] \<and> \<not> is_goal (last stack) \<and> depth (last stack) < depth_limit
        \<and> get_successors (last stack) = Inr successors \<longrightarrow>
        (\<exists>pushed. subseq (rev pushed) successors
           \<and> board ` set pushed = board ` set successors - visited
           \<and> (distinct (map board successors) \<longrightarrow>
                rev pushed = filter (\<lambda>s. board s \<notin> visited) successors)
           \<and> dfs_pops stack visited depth_limit
               = last stack # dfs_pops (butlast stack @ pushed)
                   (visited \<union> board ` set successors) depth_limit
           \<and> dfs_loop stack visited n m depth_limit
               = dfs_loop (butlast stack @ pushed) (visited \<union> board ` set successors)
                   (n + 1) (max m (int (length stack))) depth_limit))
   \<and> (stack \<noteq> [] \<and> \<not> is_goal (last stack) \<and> depth (last stack) < depth_limit
        \<and> get_successors (last stack) = Inr successors
        \<and> distinct (map board successors) \<longrightarrow>
        (\<exists>ts rest. dfs_pops stack visited depth_limit = last stack # concat ts @ rest
           \<and> map hd ts = take (length ts) (filter (\<lambda>s. board s \<notin> visited) successors)
           \<and> (\<forall>t \<in> set ts. t \<noteq> []
                \<and> (\<forall>x \<in> set (tl t). board x \<notin> visited \<union> board ` set successors))
           \<and> (length ts < length (filter (\<lambda>s. board s \<notin> visited) successors) \<longrightarrow> rest = [])
           \<and> (rest = [] \<or> (\<exists>vis'. rest = dfs_pops (butlast stack) vis' depth_limit))))"
proof -
  have c1: "map (\<lambda>(dr, dc, move_name). move_name) moves = [''UP'', ''DOWN'', ''LEFT'', ''RIGHT'']"
    by (simp add: moves_def)
  have c2: "find_empty s = Inr (Some (row, col)) \<and> get_successors s = Inr succs \<longrightarrow>
        map move succs
          = map (\<lambda>(dr, dc, move_name). Some move_name) (filter (in_bounds s row col) moves)"
  proof
    assume "find_empty s = Inr (Some (row, col)) \<and> get_successors s = Inr succs"
    then have "successors_loop s row col moves = Inr succs"
      by (auto simp: get_successors_def)
    then show "map move succs
        = map (\<lambda>(dr, dc, move_name). Some move_name) (filter (in_bounds s row col) moves)"
      by (rule successors_loop_moves)
  qed
  have c3: "valid_board k (board s) \<and> get_successors s = Inr succs \<longrightarrow>
      distinct (map board succs)"
    using get_successors_distinct by blast
  have c4: "dfs_loop_traced stack visited n m depth_limit
        = (dfs_pops stack visited depth_limit, dfs_loop stack visited n m depth_limit)"
    by (rule dfs_loop_traced_pops)
  have c5: "dfs_solve initial_state depth_limit
        = snd (dfs_loop_traced [initial_state] {board initial_state} 0 0 depth_limit)"
    by (simp add: dfs_solve_def dfs_loop_traced_snd)
  have c6: "dfs_loop stack visited n m depth_limit = Inr r \<longrightarrow>
        map_of r ''nodes_expanded''
          = Some (JInt (n + int (length (dfs_pops stack visited depth_limit))))"
    using dfs_loop_nodes_expanded by blast
  have c7: "dfs_loop stack visited n m depth_limit = Inr r
        \<and> map_of r ''success'' = Some (JBool True) \<longrightarrow>
        dfs_pops stack visited depth_limit \<noteq> []
        \<and> is_goal (last (dfs_pops stack visited depth_limit))
        \<and> map_of r ''solution_path''
            = Some (JPath (reconstruct_path (last (dfs_pops stack visited depth_limit))))"
    using dfs_loop_success_last_pop by blast
  have c8: "stack \<noteq> [] \<longrightarrow> hd (dfs_pops stack visited depth_limit) = last stack"
    by (subst dfs_pops_unfold) (simp split: sum.splits)
  have c9: "stack \<noteq> [] \<and> \<not> is_goal (last stack) \<and> depth (last stack) < depth_limit
        \<and> get_successors (last stack) = Inr successors \<longrightarrow>
        (\<exists>pushed. subseq (rev pushed) successors
           \<and> board ` set pushed = board ` set successors - visited
           \<and> (distinct (map board successors) \<longrightarrow>
                rev pushed = filter (\<lambda>s. board s \<notin> visited) successors)
           \<and> dfs_pops stack visited depth_limit
               = last stack # dfs_pops (butlast stack @ pushed)
                   (visited \<union> board ` set successors) depth_limit
           \<and> dfs_loop stack visited n m depth_limit
               = dfs_loop (butlast stack @ pushed) (visited \<union> board ` set successors)
                   (n + 1) (max m (int (length stack))) depth_limit)"
  proof
    assume a: "stack \<noteq> [] \<and> \<not> is_goal (last stack) \<and> depth (last stack) < depth_limit
        \<and> get_successors (last stack) = Inr successors"
    obtain pushed where p:
      "fst (append_unvisited (rev successors) (butlast stack) visited) = butlast stack @ pushed"
      "subseq pushed (rev successors)"
      "board ` set pushed = board ` set (rev successors) - visited"
      "distinct (map board (rev successors)) \<longrightarrow>
         pushed = filter (\<lambda>s. board s \<notin> visited) (rev successors)"
      using append_unvisited_pushed[of "rev successors" "butlast stack" visited] by blast
    have step: "dfs_loop stack visited n m depth_limit
        = dfs_loop (butlast stack @ pushed) (visited \<union> board ` set successors)
            (n + 1) (max m (int (length stack))) depth_limit"
      using a by (subst dfs_loop.simps) (simp add: p(1) append_unvisited_visited)
    have pops: "dfs_pops stack visited depth_limit
        = last stack # dfs_pops (butlast stack @ pushed)
            (visited \<union> board ` set successors) depth_limit"
      using a dfs_pops_expand[of stack depth_limit successors visited]
      by (simp add: p(1) append_unvisited_visited)
    have sub: "subseq (rev pushed) successors"
      using subseq_rev[OF p(2)] by simp
    have dist: "distinct (map board successors) \<longrightarrow>
        rev pushed = filter (\<lambda>s. board s \<notin> visited) successors"
    proof
      assume "distinct (map board successors)"
      then have "distinct (map board (rev successors))" by (metis distinct_rev rev_map)
      with p(4) have "pushed = filter (\<lambda>s. board s \<notin> visited) (rev successors)" by simp
      then show "rev pushed = filter (\<lambda>s. board s \<notin> visited) successors"
        by (simp add: rev_filter)
    qed
    have img: "board ` set pushed = board ` set successors - visited" using p(3) by simp
    from sub img dist pops step
    show "\<exists>pushed. subseq (rev pushed) successors
           \<and> board ` set pushed = board ` set successors - visited
           \<and> (distinct (map board successors) \<longrightarrow>
                rev pushed = filter (\<lambda>s. board s \<notin> visited) successors)
           \<and> dfs_pops stack visited depth_limit
               = last stack # dfs_pops (butlast stack @ pushed)
                   (visited \<union> board ` set successors) depth_limit
           \<and> dfs_loop stack visited n m depth_limit
               = dfs_loop (butlast stack @ pushed) (visited \<union> board ` set successors)
                   (n + 1) (max m (int (length stack))) depth_limit"
      by blast
  qed
  have c10: "stack \<noteq> [] \<and> \<not> is_goal (last stack) \<and> depth (last stack) < depth_limit
        \<and> get_successors (last stack) = Inr successors
        \<and> distinct (map board successors) \<longrightarrow>
        (\<exists>ts rest. dfs_pops stack visited depth_limit = last stack # concat ts @ rest
           \<and> map hd ts = take (length ts) (filter (\<lambda>s. board s \<notin> visited) successors)
           \<and> (\<forall>t \<in> set ts. t \<noteq> []
                \<and> (\<forall>x \<in> set (tl t). board x \<notin> visited \<union> board ` set successors))
           \<and> (length ts < length (filter (\<lambda>s. board s \<notin> visited) successors) \<longrightarrow> rest = [])
           \<and> (rest = [] \<or> (\<exists>vis'. rest = dfs_pops (butlast stack) vis' depth_limit)))"
  proof
    assume a: "stack \<noteq> [] \<and> \<not> is_goal (last stack) \<and> depth (last stack) < depth_limit
        \<and> get_successors (last stack) = Inr successors
        \<and> distinct (map board successors)"
    let ?cs = "filter (\<lambda>s. board s \<notin> visited) successors"
    let ?vis = "visited \<union> board ` set successors"
    have pops: "dfs_pops stack visited depth_limit
        = last stack # dfs_pops (butlast stack @ rev ?cs) ?vis depth_limit"
      using a dfs_pops_expand[of stack depth_limit successors visited]
      by (simp add: dfs_pushed_exact append_unvisited_visited)
    from dfs_pops_children[of "butlast stack" ?cs ?vis depth_limit] obtain ts rest where
      ch: "dfs_pops (butlast stack @ rev ?cs) ?vis depth_limit = concat ts @ rest"
        "map hd ts = take (length ts) ?cs"
        "\<forall>t \<in> set ts. t \<noteq> [] \<and> (\<forall>x \<in> set (tl t). board x \<notin> ?vis)"
        "length ts < length ?cs \<longrightarrow> rest = []"
        "rest = [] \<or> (\<exists>vis'. ?vis \<subseteq> vis' \<and> rest = dfs_pops (butlast stack) vis' depth_limit)"
      by blast
    have 1: "dfs_pops stack visited depth_limit = last stack # concat ts @ rest"
      using pops ch(1) by simp
    have 5: "rest = [] \<or> (\<exists>vis'. rest = dfs_pops (butlast stack) vis' depth_limit)"
      using ch(5) by blast
    from 1 ch(2) ch(3) ch(4) 5
    show "\<exists>ts rest. dfs_pops stack visited depth_limit = last stack # concat ts @ rest
           \<and> map hd ts = take (length ts) ?cs
           \<and> (\<forall>t \<in> set ts. t \<noteq> [] \<and> (\<forall>x \<in> set (tl t). board x \<notin> ?vis))
           \<and> (length ts < length ?cs \<longrightarrow> rest = [])
           \<and> (rest = [] \<or> (\<exists>vis'. rest = dfs_pops (butlast stack) vis' depth_limit))"
      by blast
  qed
  from c1 c2 c3 c4 c5 c6 c7 c8 c9 c10 show ?thesis by (intro conjI)
qed

theorem dfs_canonical_order_witness:
  "find_empty (PuzzleState [[1, 2], [0, 3]] None None 0 0) = Inr (Some (1, 0))
   \<and> get_successors (PuzzleState [[1, 2], [0, 3]] None None 0 0)
       = Inr [PuzzleState [[0, 2], [1, 3]] (Some (PuzzleState [[1, 2], [0, 3]] None None 0 0))
                (Some ''UP'') 1 1,
              PuzzleState [[1, 2], [3, 0]] (Some (PuzzleState [[1, 2], [0, 3]] None None 0 0))
                (Some ''RIGHT'') 1 1]
   \<and> valid_board 2 [[1, 2], [0, 3]]
   \<and> distinct [[[0, 2], [1, 3]], [[1, 2], [3, 0 :: int]]]
   \<and> dfs_solve (PuzzleState [[1, 2], [0, 3]] None None 0 0) 50
       = Inr (search_success ''DFS'' ''max_stack_size'' [[[1, 2], [0, 3]], [[1, 2], [3, 0]]] 12 2)
   \<and> length (dfs_pops [PuzzleState [[1, 2], [0, 3]] None None 0 0] {[[1, 2], [0, 3]]} 50) = 12
   \<and> map board (dfs_pops [PuzzleState [[1, 2], [0, 3]] None None 0 0] {[[1, 2], [0, 3]]} 50)
       = [[[1, 2], [0, 3]], [[0, 2], [1, 3]], [[2, 0], [1, 3]], [[2, 3], [1, 0]],
          [[2, 3], [0, 1]], [[0, 3], [2, 1]], [[3, 0], [2, 1]], [[3, 1], [2, 0]],
          [[3, 1], [0, 2]], [[0, 1], [3, 2]], [[1, 0], [3, 2]], [[1, 2], [3, 0]]]
   \<and> board (last (dfs_pops [PuzzleState [[1, 2], [0, 3]] None None 0 0] {[[1, 2], [0, 3]]} 50))
       = [[1, 2], [3, 0]]
   \<and> (\<exists>ts rest.
        dfs_pops [PuzzleState [[1, 2], [0, 3]] None None 0 0] {[[1, 2], [0, 3]]} 50
          = PuzzleState [[1, 2], [0, 3]] None None 0 0 # concat ts @ rest
        \<and> map hd ts = take (length ts)
            [PuzzleState [[0, 2], [1, 3]] (Some (PuzzleState [[1, 2], [0, 3]] None None 0 0))
               (Some ''UP'') 1 1,
             PuzzleState [[1, 2], [3, 0]] (Some (PuzzleState [[1, 2], [0, 3]] None None 0 0))
               (Some ''RIGHT'') 1 1]
        \<and> (length ts < 2 \<longrightarrow> rest = []))"
proof -
  let ?s = "PuzzleState [[1, 2], [0, 3]] None None 0 0"
  let ?c1 = "PuzzleState [[0, 2], [1, 3]] (Some ?s) (Some ''UP'') 1 1"
  let ?c2 = "PuzzleState [[1, 2], [3, 0]] (Some ?s) (Some ''RIGHT'') 1 1"
  let ?r = "search_success ''DFS'' ''max_stack_size'' [[[1, 2], [0, 3]], [[1, 2], [3, 0]]] 12 2"
  let ?pops = "dfs_pops [?s] {[[1, 2], [0, 3]]} 50"
  have fe: "find_empty ?s = Inr (Some (1, 0))" by code_simp
  have gs: "get_successors ?s = Inr [?c1, ?c2]" by code_simp
  have ng: "\<not> is_goal ?s" by code_simp
  have run: "dfs_loop [?s] {[[1, 2], [0, 3]]} 0 0 50 = Inr ?r" by code_simp
  have boards: "map board ?pops
       = [[[1, 2], [0, 3]], [[0, 2], [1, 3]], [[2, 0], [1, 3]], [[2, 3], [1, 0]],
          [[2, 3], [0, 1]], [[0, 3], [2, 1]], [[3, 0], [2, 1]], [[3, 1], [2, 0]],
          [[3, 1], [0, 2]], [[0, 1], [3, 2]], [[1, 0], [3, 2]], [[1, 2], [3, 0]]]"
    by code_simp
  have ok: "map_of ?r ''success'' = Some (JBool True)"
    and ne: "map_of ?r ''nodes_expanded'' = Some (JInt 12)"
    and sp: "map_of ?r ''solution_path'' = Some (JPath [[[1, 2], [0, 3]], [[1, 2], [3, 0]]])"
    by (simp_all add: search_success_def)
  note inst = dfs_canonical_order[where s = "?s" and row = 1 and col = 0 and succs = "[?c1, ?c2]"
      and k = 2 and stack = "[?s]" and visited = "{[[1, 2], [0, 3]]}" and n = 0 and m = 0
      and depth_limit = 50 and initial_state = "?s" and r = "?r" and successors = "[?c1, ?c2]"]
  note rest2 = inst[THEN conjunct2, THEN conjunct2]
  note rest4 = rest2[THEN conjunct2, THEN conjunct2]
  note rest6 = rest4[THEN conjunct2, THEN conjunct2]
  note rest8 = rest6[THEN conjunct2, THEN conjunct2]
  have d: "distinct (map board [?c1, ?c2])"
    using rest2[THEN conjunct1] gs valid_board_example by simp
  have solve: "dfs_solve ?s 50 = Inr ?r"
    using rest4[THEN conjunct1] rest2[THEN conjunct2, THEN conjunct1] run by simp
  have len: "length ?pops = 12"
    using rest4[THEN conjunct2, THEN conjunct1] run ne by simp
  have "?pops \<noteq> []"
    using rest6[THEN conjunct1] run ok by simp
  then have "board (last ?pops) = last (map board ?pops)" by (simp add: last_map)
  then have lst: "board (last ?pops) = [[1, 2], [3, 0]]" by (simp add: boards)
  have pre: "[?s] \<noteq> [] \<and> \<not> is_goal (last [?s]) \<and> depth (last [?s]) < 50
      \<and> get_successors (last [?s]) = Inr [?c1, ?c2] \<and> distinct (map board [?c1, ?c2])"
    using ng gs d by simp
  have cs: "filter (\<lambda>s. board s \<notin> {[[1, 2], [0, 3]]}) [?c1, ?c2] = [?c1, ?c2]" by simp
  from rest8[THEN conjunct2, THEN mp, OF pre] obtain ts rest where
    "?pops = last [?s] # concat ts @ rest"
    "map hd ts = take (length ts) (filter (\<lambda>s. board s \<notin> {[[1, 2], [0, 3]]}) [?c1, ?c2])"
    "length ts < length (filter (\<lambda>s. board s \<notin> {[[1, 2], [0, 3]]}) [?c1, ?c2]) \<longrightarrow> rest = []"
    by blast
  then have "?pops = ?s # concat ts @ rest \<and> map hd ts = take (length ts) [?c1, ?c2]
      \<and> (length ts < 2 \<longrightarrow> rest = [])"
    unfolding cs by simp
  then have ex: "\<exists>ts rest. ?pops = ?s # concat ts @ rest
        \<and> map hd ts = take (length ts) [?c1, ?c2] \<and> (length ts < 2 \<longrightarrow> rest = [])"
    by blast
  have dd: "distinct [[[0, 2], [1, 3]], [[1, 2], [3, 0 :: int]]]" using d by simp
  from fe gs valid_board_example dd solve len boards lst ex show ?thesis by blast
qed

section \<open>The whole parent chain: which fields are ever assigned\<close>










end
